theory Spec2Isabelle
  imports Main "HOL-Library.Word"
begin

section \<open>Uint128 of go-nebulas (util/uint128.go)\<close>

text \<open>
  The Go type \<^verbatim>\<open>Uint128\<close> is a struct that embeds a pointer to a \<^verbatim>\<open>math/big.Int\<close>.
  The embedding keeps that shape: a heap of big integers, addressed by pointers, and a
  record holding the pointer. A big integer is an \<^typ>\<open>int\<close>; a byte is an 8-bit word.
\<close>

subsection \<open>Constants and errors\<close>

type_synonym byte = "8 word"

definition Uint128Bytes :: nat where
  "Uint128Bytes = 16"

definition Uint128Bits :: nat where
  "Uint128Bits = 128"

datatype error =
    ErrUint128Overflow
  | ErrUint128Underflow
  | ErrUint128InvalidBytesSize
  | ErrUint128InvalidString

text \<open>Run-time panics of Go that the methods can reach.\<close>

datatype panic = NilDereference | DivisionByZero | SliceBoundsOutOfRange

subsection \<open>The parts of math/big the file calls, on mathematical integers\<close>

text \<open>
  \<^verbatim>\<open>math/big\<close> is Go's standard library, not part of the repository. Each function
  below follows the documented behaviour of the method of \<^verbatim>\<open>big.Int\<close> it is named after,
  in base 10 where the method takes a base, as every call in the file does.
\<close>

text \<open>\<^verbatim>\<open>Sign\<close>: -1, 0 or +1.\<close>

definition big_Sign :: "int \<Rightarrow> int" where
  "big_Sign x = (if x < 0 then - 1 else if x = 0 then 0 else 1)"

text \<open>\<^verbatim>\<open>BitLen\<close>: the length of the absolute value in bits; the bit length of 0 is 0.\<close>

fun nat_bitLen :: "nat \<Rightarrow> nat" where
  "nat_bitLen n = (if n = 0 then 0 else Suc (nat_bitLen (n div 2)))"

definition big_BitLen :: "int \<Rightarrow> nat" where
  "big_BitLen x = nat_bitLen (nat \<bar>x\<bar>)"

text \<open>\<^verbatim>\<open>Bytes\<close>: the absolute value as a big-endian byte slice, without leading zero bytes.\<close>

fun nat_bytes :: "nat \<Rightarrow> byte list" where
  "nat_bytes n = (if n = 0 then [] else nat_bytes (n div 256) @ [of_nat (n mod 256)])"

definition big_Bytes :: "int \<Rightarrow> byte list" where
  "big_Bytes x = nat_bytes (nat \<bar>x\<bar>)"

text \<open>\<^verbatim>\<open>SetBytes\<close>: the bytes read as a big-endian unsigned integer.\<close>

definition big_SetBytes :: "byte list \<Rightarrow> int" where
  "big_SetBytes buf = foldl (\<lambda>acc b. acc * 256 + uint b) 0 buf"

text \<open>
  \<^verbatim>\<open>SetString(s, 10)\<close>: an optional sign, then one or more decimal digits, and nothing
  after them. Digits are scanned from the left until a byte that is no digit of the base;
  no digit at all, or a byte left over, is a failure.
\<close>

definition digit_val :: "char \<Rightarrow> nat option" where
  "digit_val ch = (let c = (of_char ch :: nat) in
     if 48 \<le> c \<and> c \<le> 57 then Some (c - 48) else None)"

fun scan_digits :: "nat \<Rightarrow> nat \<Rightarrow> string \<Rightarrow> nat \<times> nat \<times> string" where
  "scan_digits acc count [] = (acc, count, [])"
| "scan_digits acc count (ch # r) =
     (case digit_val ch of
        None \<Rightarrow> (acc, count, ch # r)
      | Some d \<Rightarrow> scan_digits (acc * 10 + d) (Suc count) r)"

definition scanSign :: "string \<Rightarrow> (bool \<times> string) option" where
  "scanSign s = (case s of
       [] \<Rightarrow> None
     | ch # r \<Rightarrow>
         if ch = CHR ''-'' then Some (True, r)
         else if ch = CHR ''+'' then Some (False, r)
         else Some (False, ch # r))"

definition big_SetString :: "string \<Rightarrow> int option" where
  "big_SetString s = (case scanSign s of
       None \<Rightarrow> None
     | Some (neg, r) \<Rightarrow>
         (case scan_digits 0 0 r of (mag, count, rest) \<Rightarrow>
            if count = 0 \<or> rest \<noteq> [] then None
            else Some (if mag \<noteq> 0 \<and> neg then - int mag else int mag)))"

text \<open>\<^verbatim>\<open>Text(10)\<close>: the decimal digits of the absolute value, after a minus sign when negative.\<close>

definition digits :: string where
  "digits = ''0123456789''"

fun nat_itoa :: "nat \<Rightarrow> string" where
  "nat_itoa n = (if n < 10 then [digits ! n] else nat_itoa (n div 10) @ [digits ! (n mod 10)])"

definition big_Text :: "int \<Rightarrow> string" where
  "big_Text x = (if x < 0 then CHR ''-'' # nat_itoa (nat (- x)) else nat_itoa (nat x))"

text \<open>
  \<^verbatim>\<open>QuoRem\<close> truncates towards zero; \<^verbatim>\<open>Div\<close> corrects its quotient where the remainder
  is negative, which gives Euclidean division. A zero divisor panics.
\<close>

definition big_QuoRem :: "int \<Rightarrow> int \<Rightarrow> panic + int \<times> int" where
  "big_QuoRem x y =
     (if y = 0 then Inl DivisionByZero
      else let q = sgn x * sgn y * (\<bar>x\<bar> div \<bar>y\<bar>) in Inr (q, x - y * q))"

definition big_Div :: "int \<Rightarrow> int \<Rightarrow> panic + int" where
  "big_Div x y = (case big_QuoRem x y of
       Inl p \<Rightarrow> Inl p
     | Inr (q, r) \<Rightarrow>
         Inr (if r < 0 then (if y < 0 then q + 1 else q - 1) else q))"

text \<open>\<^verbatim>\<open>Exp(x, y, nil)\<close>: \<open>x\<close> to the power \<open>y\<close>, and 1 when \<open>y \<le> 0\<close>.\<close>

definition big_Exp :: "int \<Rightarrow> int \<Rightarrow> int" where
  "big_Exp x y = (if y \<le> 0 then 1 else x ^ nat y)"

text \<open>\<^verbatim>\<open>Cmp\<close>: -1, 0 or +1.\<close>

definition big_Cmp :: "int \<Rightarrow> int \<Rightarrow> int" where
  "big_Cmp x y = (if x < y then - 1 else if x = y then 0 else 1)"

subsection \<open>The heap of big integers\<close>

text \<open>
  A \<^verbatim>\<open>*big.Int\<close> is Go's nil or the address of a cell of the heap. Reading or writing
  through nil panics, whatever the heap is, and no allocation ever yields nil. The cells
  of a heap \<open>h\<close> have the addresses \<open>0 .. length h - 1\<close>, and allocation appends a cell, so
  the new address differs from the address of every cell there is. A Go program holds
  no pointer but nil and the addresses of cells that exist; the heap treats any other
  address as it treats nil.
\<close>

datatype ptr = NilPtr | Addr nat

type_synonym heap = "int list"

definition load :: "heap \<Rightarrow> ptr \<Rightarrow> int option" where
  "load h p = (case p of
       NilPtr \<Rightarrow> None
     | Addr i \<Rightarrow> if i < length h then Some (h ! i) else None)"

definition store :: "heap \<Rightarrow> ptr \<Rightarrow> int \<Rightarrow> heap" where
  "store h p v = (case p of NilPtr \<Rightarrow> h | Addr i \<Rightarrow> h[i := v])"

definition alloc :: "heap \<Rightarrow> int \<Rightarrow> ptr \<times> heap" where
  "alloc h v = (Addr (length h), h @ [v])"

text \<open>
  The setters of \<^verbatim>\<open>big.Int\<close> on the heap: \<open>z.Op(x, y)\<close> writes the result into the cell
  of \<open>z\<close> and leaves every other cell alone.
\<close>

definition Int_set :: "heap \<Rightarrow> ptr \<Rightarrow> int \<Rightarrow> panic + heap" where
  "Int_set h z v = (case load h z of
       None \<Rightarrow> Inl NilDereference
     | Some _ \<Rightarrow> Inr (store h z v))"

definition Int_op :: "(int \<Rightarrow> int \<Rightarrow> panic + int) \<Rightarrow> heap \<Rightarrow> ptr \<Rightarrow> ptr \<Rightarrow> ptr \<Rightarrow> panic + heap" where
  "Int_op f h z x y = (case (load h z, load h x, load h y) of
       (Some _, Some a, Some b) \<Rightarrow>
         (case f a b of Inl p \<Rightarrow> Inl p | Inr v \<Rightarrow> Inr (store h z v))
     | _ \<Rightarrow> Inl NilDereference)"

definition Int_Add :: "heap \<Rightarrow> ptr \<Rightarrow> ptr \<Rightarrow> ptr \<Rightarrow> panic + heap" where
  "Int_Add = Int_op (\<lambda>a b. Inr (a + b))"

definition Int_Sub :: "heap \<Rightarrow> ptr \<Rightarrow> ptr \<Rightarrow> ptr \<Rightarrow> panic + heap" where
  "Int_Sub = Int_op (\<lambda>a b. Inr (a - b))"

definition Int_Mul :: "heap \<Rightarrow> ptr \<Rightarrow> ptr \<Rightarrow> ptr \<Rightarrow> panic + heap" where
  "Int_Mul = Int_op (\<lambda>a b. Inr (a * b))"

definition Int_Div :: "heap \<Rightarrow> ptr \<Rightarrow> ptr \<Rightarrow> ptr \<Rightarrow> panic + heap" where
  "Int_Div = Int_op big_Div"

definition Int_Exp :: "heap \<Rightarrow> ptr \<Rightarrow> ptr \<Rightarrow> ptr \<Rightarrow> panic + heap" where
  "Int_Exp = Int_op (\<lambda>a b. Inr (big_Exp a b))"

subsection \<open>Uint128\<close>

text \<open>
  The struct has one field, the embedded pointer \<^verbatim>\<open>Int\<close> (here \<open>Int'\<close>, since
  \<open>Int\<close> is taken by the notation for intersection). The methods take a
  \<^verbatim>\<open>*Uint128\<close> and never assign the field, so the receiver is modelled by the struct it
  points to.
\<close>

record Uint128 =
  Int' :: ptr

text \<open>
  \<^verbatim>\<open>Validate\<close>: the sign is tested first, the bit length second.
\<close>

definition Validate :: "heap \<Rightarrow> Uint128 \<Rightarrow> panic + error option" where
  "Validate h u = (case load h (Int' u) of
       None \<Rightarrow> Inl NilDereference
     | Some v \<Rightarrow>
         if big_Sign v < 0 then Inr (Some ErrUint128Underflow)
         else if big_BitLen v > Uint128Bits then Inr (Some ErrUint128Overflow)
         else Inr None)"

text \<open>
  The tail shared by the checked constructors and the arithmetic methods:
  \<^verbatim>\<open>if err := obj.Validate(); nil != err { return nil, err }; return obj, nil\<close>.
\<close>

definition validated :: "heap \<Rightarrow> Uint128 \<Rightarrow> panic + (error + Uint128) \<times> heap" where
  "validated h obj = (case Validate h obj of
       Inl p \<Rightarrow> Inl p
     | Inr (Some err) \<Rightarrow> Inr (Inl err, h)
     | Inr None \<Rightarrow> Inr (Inr obj, h))"

definition NewUint128 :: "heap \<Rightarrow> Uint128 \<times> heap" where
  "NewUint128 h = (case alloc h 0 of (p, h') \<Rightarrow> (\<lparr>Int' = p\<rparr>, h'))"

definition NewUint128FromString :: "heap \<Rightarrow> string \<Rightarrow> panic + (error + Uint128) \<times> heap" where
  "NewUint128FromString h str = (case alloc h 0 of (big, h1) \<Rightarrow>
     (case big_SetString str of
        None \<Rightarrow> Inr (Inl ErrUint128InvalidString, h1)
      | Some v \<Rightarrow> validated (store h1 big v) \<lparr>Int' = big\<rparr>))"

definition NewUint128FromInt :: "heap \<Rightarrow> 64 word \<Rightarrow> panic + (error + Uint128) \<times> heap" where
  "NewUint128FromInt h i = (case alloc h (sint i) of (p, h1) \<Rightarrow> validated h1 \<lparr>Int' = p\<rparr>)"

definition NewUint128FromBigInt :: "heap \<Rightarrow> ptr \<Rightarrow> panic + (error + Uint128) \<times> heap" where
  "NewUint128FromBigInt h i = validated h \<lparr>Int' = i\<rparr>"

text \<open>
  \<^verbatim>\<open>copy(dst, src)\<close> of Go overwrites the first \<open>min (len dst) (len src)\<close> elements of
  \<open>dst\<close>. In \<^verbatim>\<open>copy(res[idx:], bs)\<close> the destination is the tail of the array, and taking
  that tail panics when \<open>idx\<close> is outside \<open>0..len res\<close>.
\<close>

definition copy :: "'a list \<Rightarrow> 'a list \<Rightarrow> 'a list" where
  "copy dst src = (let n = min (length dst) (length src) in take n src @ drop n dst)"

definition copy_from :: "'a list \<Rightarrow> int \<Rightarrow> 'a list \<Rightarrow> panic + 'a list" where
  "copy_from res idx bs =
     (if idx < 0 \<or> int (length res) < idx then Inl SliceBoundsOutOfRange
      else Inr (take (nat idx) res @ copy (drop (nat idx) res) bs))"

text \<open>
  \<^verbatim>\<open>ToFixedSizeBytes\<close> returns the array and the error together; with an error the array
  is the zero array it started as.
\<close>

definition ToFixedSizeBytes :: "heap \<Rightarrow> Uint128 \<Rightarrow> panic + byte list \<times> error option" where
  "ToFixedSizeBytes h u = (let res = replicate 16 (0 :: byte) in
     case Validate h u of
       Inl p \<Rightarrow> Inl p
     | Inr (Some err) \<Rightarrow> Inr (res, Some err)
     | Inr None \<Rightarrow>
         (case load h (Int' u) of
            None \<Rightarrow> Inl NilDereference
          | Some v \<Rightarrow>
              let bs = big_Bytes v; l = length bs in
              if l = 0 then Inr (res, None)
              else let idx = int Uint128Bytes - int (length bs) in
                if idx < int Uint128Bytes then
                  (case copy_from res idx bs of
                     Inl p \<Rightarrow> Inl p
                   | Inr res' \<Rightarrow> Inr (res', None))
                else Inr (res, None)))"

definition ToFixedSizeByteSlice :: "heap \<Rightarrow> Uint128 \<Rightarrow> panic + byte list \<times> error option" where
  "ToFixedSizeByteSlice h u = ToFixedSizeBytes h u"

text \<open>\<^verbatim>\<open>Text\<close> of a nil \<^verbatim>\<open>*big.Int\<close> is the string \<^verbatim>\<open><nil>\<close>.\<close>

definition String :: "heap \<Rightarrow> Uint128 \<Rightarrow> string" where
  "String h u = (case load h (Int' u) of None \<Rightarrow> ''<nil>'' | Some v \<Rightarrow> big_Text v)"

text \<open>
  The loop of \<^verbatim>\<open>FromFixedSizeByteSlice\<close>: the index of the first nonzero byte, or 16.
  It runs after the length test, so every \<open>bytes[i]\<close> it reads exists.
\<close>

function skip_zeros :: "byte list \<Rightarrow> nat \<Rightarrow> nat" where
  "skip_zeros bytes i =
     (if i < Uint128Bytes then (if bytes ! i \<noteq> 0 then i else skip_zeros bytes (i + 1)) else i)"
  by pat_completeness auto
termination
  by (relation "measure (\<lambda>(bytes, i). Uint128Bytes - i)") auto

definition FromFixedSizeByteSlice ::
    "heap \<Rightarrow> Uint128 \<Rightarrow> byte list \<Rightarrow> panic + (error + Uint128) \<times> heap" where
  "FromFixedSizeByteSlice h u bytes =
     (if length bytes \<noteq> Uint128Bytes then Inr (Inl ErrUint128InvalidBytesSize, h)
      else let i = skip_zeros bytes 0 in
        case (if i < Uint128Bytes then Int_set h (Int' u) (big_SetBytes (drop i bytes))
              else Int_set h (Int' u) 0) of
          Inl p \<Rightarrow> Inl p
        | Inr h' \<Rightarrow> Inr (Inr u, h'))"

text \<open>
  A \<^verbatim>\<open>[16]byte\<close> is a byte list; that its length is 16 is the type's guarantee and a
  hypothesis where it matters. \<^verbatim>\<open>FromFixedSizeBytes\<close> drops what the slice version returns
  and returns the receiver.
\<close>

definition FromFixedSizeBytes :: "heap \<Rightarrow> Uint128 \<Rightarrow> byte list \<Rightarrow> panic + Uint128 \<times> heap" where
  "FromFixedSizeBytes h u bytes = (case FromFixedSizeByteSlice h u bytes of
       Inl p \<Rightarrow> Inl p
     | Inr (_, h') \<Rightarrow> Inr (u, h'))"

definition NewUint128FromFixedSizeBytes :: "heap \<Rightarrow> byte list \<Rightarrow> panic + Uint128 \<times> heap" where
  "NewUint128FromFixedSizeBytes h bytes =
     (case NewUint128 h of (u, h1) \<Rightarrow> FromFixedSizeBytes h1 u bytes)"

definition NewUint128FromFixedSizeByteSlice ::
    "heap \<Rightarrow> byte list \<Rightarrow> panic + (error + Uint128) \<times> heap" where
  "NewUint128FromFixedSizeByteSlice h bytes =
     (case NewUint128 h of (u, h1) \<Rightarrow> FromFixedSizeByteSlice h1 u bytes)"

text \<open>
  The arithmetic methods: a fresh \<^verbatim>\<open>big.Int\<close> from \<^verbatim>\<open>NewUint128()\<close> receives the
  result of the operation on the two operands' integers and is wrapped and validated.
\<close>

definition Add :: "heap \<Rightarrow> Uint128 \<Rightarrow> Uint128 \<Rightarrow> panic + (error + Uint128) \<times> heap" where
  "Add h u x = (case NewUint128 h of (n, h1) \<Rightarrow>
     (case Int_Add h1 (Int' n) (Int' u) (Int' x) of
        Inl p \<Rightarrow> Inl p
      | Inr h2 \<Rightarrow> validated h2 \<lparr>Int' = Int' n\<rparr>))"

definition Sub :: "heap \<Rightarrow> Uint128 \<Rightarrow> Uint128 \<Rightarrow> panic + (error + Uint128) \<times> heap" where
  "Sub h u x = (case NewUint128 h of (n, h1) \<Rightarrow>
     (case Int_Sub h1 (Int' n) (Int' u) (Int' x) of
        Inl p \<Rightarrow> Inl p
      | Inr h2 \<Rightarrow> validated h2 \<lparr>Int' = Int' n\<rparr>))"

definition Mul :: "heap \<Rightarrow> Uint128 \<Rightarrow> Uint128 \<Rightarrow> panic + (error + Uint128) \<times> heap" where
  "Mul h u x = (case NewUint128 h of (n, h1) \<Rightarrow>
     (case Int_Mul h1 (Int' n) (Int' u) (Int' x) of
        Inl p \<Rightarrow> Inl p
      | Inr h2 \<Rightarrow> validated h2 \<lparr>Int' = Int' n\<rparr>))"

definition Div :: "heap \<Rightarrow> Uint128 \<Rightarrow> Uint128 \<Rightarrow> panic + (error + Uint128) \<times> heap" where
  "Div h u x = (case NewUint128 h of (n, h1) \<Rightarrow>
     (case Int_Div h1 (Int' n) (Int' u) (Int' x) of
        Inl p \<Rightarrow> Inl p
      | Inr h2 \<Rightarrow> validated h2 \<lparr>Int' = Int' n\<rparr>))"

definition Exp :: "heap \<Rightarrow> Uint128 \<Rightarrow> Uint128 \<Rightarrow> panic + (error + Uint128) \<times> heap" where
  "Exp h u x = (case NewUint128 h of (n, h1) \<Rightarrow>
     (case Int_Exp h1 (Int' n) (Int' u) (Int' x) of
        Inl p \<Rightarrow> Inl p
      | Inr h2 \<Rightarrow> validated h2 \<lparr>Int' = Int' n\<rparr>))"

definition DeepCopy :: "heap \<Rightarrow> Uint128 \<Rightarrow> panic + Uint128 \<times> heap" where
  "DeepCopy h u = (case alloc h 0 of (z, h1) \<Rightarrow>
     (case load h1 (Int' u) of
        None \<Rightarrow> Inl NilDereference
      | Some v \<Rightarrow> Inr (\<lparr>Int' = z\<rparr>, store h1 z v)))"

text \<open>\<^verbatim>\<open>big.Int.Cmp\<close> answers 0 for two equal pointers before it reads either.\<close>

definition Cmp :: "heap \<Rightarrow> Uint128 \<Rightarrow> Uint128 \<Rightarrow> panic + int" where
  "Cmp h u x =
     (if Int' u = Int' x then Inr 0
      else case (load h (Int' u), load h (Int' x)) of
          (Some a, Some b) \<Rightarrow> Inr (big_Cmp a b)
        | _ \<Rightarrow> Inl NilDereference)"

subsection \<open>Vocabulary of the properties\<close>

text \<open>The integer a Uint128 holds, and the range invariant \<open>0 \<le> v \<le> 2^128 - 1\<close>.\<close>

definition holds :: "heap \<Rightarrow> Uint128 \<Rightarrow> int \<Rightarrow> bool" where
  "holds h u v \<longleftrightarrow> load h (Int' u) = Some v"

definition in_range :: "int \<Rightarrow> bool" where
  "in_range v \<longleftrightarrow> 0 \<le> v \<and> v < 2 ^ 128"

text \<open>
  The value of a byte sequence read big-endian, as a sum of weighted bytes: the byte at
  index \<open>i\<close> of \<open>n\<close> bytes weighs \<open>256 ^ (n - 1 - i)\<close>.
\<close>

definition be_value :: "byte list \<Rightarrow> int" where
  "be_value bs = (\<Sum>i < length bs. uint (bs ! i) * 256 ^ (length bs - Suc i))"

text \<open>
  What a call that returns \<^verbatim>\<open>(*Uint128, error)\<close> did: it returned a Uint128 holding \<open>v\<close>,
  or it returned the error \<open>e\<close>. A panic is neither.
\<close>

definition returns :: "panic + (error + Uint128) \<times> heap \<Rightarrow> int \<Rightarrow> bool" where
  "returns res v \<longleftrightarrow> (case res of
       Inl _ \<Rightarrow> False
     | Inr (r, h') \<Rightarrow> (case r of Inl _ \<Rightarrow> False | Inr obj \<Rightarrow> holds h' obj v))"

definition fails_with :: "panic + (error + Uint128) \<times> heap \<Rightarrow> error \<Rightarrow> bool" where
  "fails_with res e \<longleftrightarrow> (case res of
       Inl _ \<Rightarrow> False
     | Inr (r, h') \<Rightarrow> (case r of Inl e' \<Rightarrow> e' = e | Inr _ \<Rightarrow> False))"

text \<open>The quotient truncated towards zero.\<close>

definition trunc_quot :: "int \<Rightarrow> int \<Rightarrow> int" where
  "trunc_quot a b = sgn a * sgn b * (\<bar>a\<bar> div \<bar>b\<bar>)"

text \<open>
  A call on the heap \<open>h\<close> with operands \<open>u\<close> and \<open>x\<close> kept them: it did not panic, every
  cell of \<open>h\<close> has the value it had, in particular the cells of \<open>u\<close> and \<open>x\<close>, and a
  Uint128 it returned points to a cell that \<open>h\<close> did not have.
\<close>

definition operands_kept ::
    "heap \<Rightarrow> Uint128 \<Rightarrow> Uint128 \<Rightarrow> panic + (error + Uint128) \<times> heap \<Rightarrow> bool" where
  "operands_kept h u x res \<longleftrightarrow> (case res of
       Inl _ \<Rightarrow> False
     | Inr (r, h') \<Rightarrow>
         take (length h) h' = h \<and>
         load h' (Int' u) = load h (Int' u) \<and>
         load h' (Int' x) = load h (Int' x) \<and>
         (case r of
            Inl _ \<Rightarrow> True
          | Inr obj \<Rightarrow>
              Int' obj \<noteq> Int' u \<and> Int' obj \<noteq> Int' x \<and>
              load h (Int' obj) = None \<and> load h' (Int' obj) \<noteq> None))"

text \<open>The number a string of decimal digits denotes, most significant digit first.\<close>

definition dec_value :: "string \<Rightarrow> nat" where
  "dec_value s = foldl (\<lambda>acc ch. acc * 10 + (of_char ch - 48)) 0 s"

section \<open>Properties\<close>

declare nat_bitLen.simps [simp del]
declare nat_bytes.simps [simp del]
declare nat_itoa.simps [simp del]
declare skip_zeros.simps [simp del]

subsection \<open>Bit length, bytes and big-endian values\<close>


lemma nat_bitLen_le: "nat_bitLen n \<le> k \<longleftrightarrow> n < 2 ^ k"
proof (induction n arbitrary: k rule: nat_bitLen.induct)
  case (1 n)
  show ?case
  proof (cases "n = 0")
    case True
    then show ?thesis by (simp add: nat_bitLen.simps)
  next
    case False
    show ?thesis
    proof (cases k)
      case 0
      with False show ?thesis by (simp add: nat_bitLen.simps)
    next
      case (Suc j)
      have "nat_bitLen n \<le> Suc j \<longleftrightarrow> nat_bitLen (n div 2) \<le> j"
        using False by (subst nat_bitLen.simps) simp
      also have "\<dots> \<longleftrightarrow> n div 2 < 2 ^ j" using 1 [OF False] .
      also have "\<dots> \<longleftrightarrow> n < 2 ^ Suc j" by auto
      finally show ?thesis using Suc by simp
    qed
  qed
qed

lemma length_nat_bytes_le: "length (nat_bytes n) \<le> k \<longleftrightarrow> n < 256 ^ k"
proof (induction n arbitrary: k rule: nat_bytes.induct)
  case (1 n)
  show ?case
  proof (cases "n = 0")
    case True
    then show ?thesis by (simp add: nat_bytes.simps)
  next
    case False
    show ?thesis
    proof (cases k)
      case 0
      with False show ?thesis by (simp add: nat_bytes.simps)
    next
      case (Suc j)
      have "length (nat_bytes n) \<le> Suc j \<longleftrightarrow> length (nat_bytes (n div 256)) \<le> j"
        using False by (subst nat_bytes.simps) simp
      also have "\<dots> \<longleftrightarrow> n div 256 < 256 ^ j" using 1 [OF False] .
      also have "\<dots> \<longleftrightarrow> n < 256 ^ Suc j"
        by (simp add: less_mult_imp_div_less div_less_iff_less_mult mult.commute)
      finally show ?thesis using Suc by simp
    qed
  qed
qed

lemma big_SetBytes_snoc: "big_SetBytes (xs @ [b]) = big_SetBytes xs * 256 + uint b"
  by (simp add: big_SetBytes_def)

lemma big_SetBytes_nat_bytes: "big_SetBytes (nat_bytes n) = int n"
proof (induction n rule: nat_bytes.induct)
  case (1 n)
  show ?case
  proof (cases "n = 0")
    case True
    then show ?thesis by (simp add: nat_bytes.simps big_SetBytes_def)
  next
    case False
    have "big_SetBytes (nat_bytes n) = big_SetBytes (nat_bytes (n div 256)) * 256 + uint (of_nat (n mod 256) :: byte)"
      using False by (subst nat_bytes.simps) (simp add: big_SetBytes_snoc)
    also have "uint (of_nat (n mod 256) :: byte) = int (n mod 256)"
      by (simp add: unsigned_of_nat take_bit_eq_mod)
    finally show ?thesis using 1 [OF False] by (simp add: of_nat_mod of_nat_div)
  qed
qed


lemma big_SetBytes_Cons_0: "big_SetBytes (0 # xs) = big_SetBytes xs"
  by (simp add: big_SetBytes_def)

lemma big_SetBytes_replicate_0: "big_SetBytes (replicate k 0 @ xs) = big_SetBytes xs"
  by (induction k) (simp_all add: big_SetBytes_Cons_0)

lemma big_SetBytes_skip_zeros:
  "length bytes = Uint128Bytes \<Longrightarrow> i \<le> Uint128Bytes \<Longrightarrow>
   big_SetBytes (drop (skip_zeros bytes i) bytes) = big_SetBytes (drop i bytes)"
proof (induction bytes i rule: skip_zeros.induct)
  case (1 bytes i)
  show ?case
  proof (cases "i < Uint128Bytes \<and> bytes ! i = 0")
    case True
    then have step: "skip_zeros bytes i = skip_zeros bytes (i + 1)"
      by (subst skip_zeros.simps) simp
    have "drop i bytes = 0 # drop (i + 1) bytes"
      using True "1.prems" by (simp add: Cons_nth_drop_Suc [symmetric])
    then have "big_SetBytes (drop i bytes) = big_SetBytes (drop (i + 1) bytes)"
      by (simp add: big_SetBytes_Cons_0)
    moreover have "big_SetBytes (drop (skip_zeros bytes (i + 1)) bytes) = big_SetBytes (drop (i + 1) bytes)"
      using True "1.prems" by (intro "1.IH") simp_all
    ultimately show ?thesis using step by simp
  next
    case False
    then have "skip_zeros bytes i = i"
      by (subst skip_zeros.simps) auto
    then show ?thesis by simp
  qed
qed

lemma skip_zeros_le: "i \<le> Uint128Bytes \<Longrightarrow> skip_zeros bytes i \<le> Uint128Bytes"
proof (induction bytes i rule: skip_zeros.induct)
  case (1 bytes i)
  show ?case
  proof (cases "i < Uint128Bytes \<and> bytes ! i = 0")
    case True
    then have "skip_zeros bytes i = skip_zeros bytes (i + 1)"
      by (subst skip_zeros.simps) simp
    with True 1 show ?thesis by simp
  next
    case False
    then have "skip_zeros bytes i = i"
      by (subst skip_zeros.simps) auto
    with 1 show ?thesis by simp
  qed
qed

lemma be_value_snoc: "be_value (xs @ [b]) = be_value xs * 256 + uint b"
proof -
  have "(\<Sum>i < length xs. uint ((xs @ [b]) ! i) * 256 ^ (Suc (length xs) - Suc i))
      = (\<Sum>i < length xs. (uint (xs ! i) * 256 ^ (length xs - Suc i)) * 256)"
  proof (rule sum.cong)
    fix i assume "i \<in> {..<length xs}"
    then have i: "i < length xs" by simp
    then have "Suc (length xs) - Suc i = Suc (length xs - Suc i)" by simp
    with i show "uint ((xs @ [b]) ! i) * 256 ^ (Suc (length xs) - Suc i)
        = (uint (xs ! i) * 256 ^ (length xs - Suc i)) * 256"
      by (simp add: nth_append)
  qed simp
  then show ?thesis
    by (simp add: be_value_def sum_distrib_right)
qed

lemma big_SetBytes_be_value: "big_SetBytes bs = be_value bs"
proof (induction bs rule: rev_induct)
  case Nil
  show ?case by (simp add: big_SetBytes_def be_value_def)
next
  case (snoc b bs)
  then show ?case by (simp add: big_SetBytes_snoc be_value_snoc)
qed

lemma big_SetBytes_inj:
  "length xs = length ys \<Longrightarrow> big_SetBytes xs = big_SetBytes ys \<Longrightarrow> xs = ys"
proof (induction xs arbitrary: ys rule: rev_induct)
  case Nil
  then show ?case by simp
next
  case (snoc a xs)
  from snoc.prems(1) obtain b zs where ys: "ys = zs @ [b]" and len: "length xs = length zs"
    by (cases ys rule: rev_cases) auto
  from snoc.prems(2) have eq: "big_SetBytes xs * 256 + uint a = big_SetBytes zs * 256 + uint b"
    by (simp add: ys big_SetBytes_snoc)
  have ua: "0 \<le> uint a" "uint a < 256" and ub: "0 \<le> uint b" "uint b < 256"
    using uint_bounded [of a] uint_bounded [of b] by simp_all
  have "(big_SetBytes xs * 256 + uint a) mod 256 = uint a"
       "(big_SetBytes zs * 256 + uint b) mod 256 = uint b"
       "(big_SetBytes xs * 256 + uint a) div 256 = big_SetBytes xs"
       "(big_SetBytes zs * 256 + uint b) div 256 = big_SetBytes zs"
    using ua ub by simp_all
  with eq have "uint a = uint b" and "big_SetBytes xs = big_SetBytes zs"
    by simp_all
  then have "a = b" and "xs = zs" using snoc.IH [OF len] by (simp_all add: word_uint_eq_iff)
  then show ?case using ys by simp
qed

lemma big_SetBytes_bounds: "0 \<le> big_SetBytes bs \<and> big_SetBytes bs < 256 ^ length bs"
proof (induction bs rule: rev_induct)
  case Nil
  show ?case by (simp add: big_SetBytes_def)
next
  case (snoc b bs)
  have "0 \<le> uint b" "uint b < 256" using uint_bounded [of b] by simp_all
  moreover have "big_SetBytes bs + 1 \<le> 256 ^ length bs" using snoc by simp
  then have "(big_SetBytes bs + 1) * 256 \<le> 256 ^ length bs * 256" by (rule mult_right_mono) simp
  ultimately show ?case using snoc by (simp add: big_SetBytes_snoc)
qed


lemma big_BitLen_gt: "Uint128Bits < big_BitLen v \<longleftrightarrow> 2 ^ 128 \<le> \<bar>v\<bar>"
proof -
  have "big_BitLen v \<le> 128 \<longleftrightarrow> nat \<bar>v\<bar> < 2 ^ 128"
    by (simp add: big_BitLen_def nat_bitLen_le)
  also have "\<dots> \<longleftrightarrow> \<bar>v\<bar> < 2 ^ 128"
    by (simp add: nat_less_iff)
  finally show ?thesis by (auto simp: Uint128Bits_def)
qed

lemma Validate_holds:
  "holds h u v \<Longrightarrow> Validate h u =
     Inr (if v < 0 then Some ErrUint128Underflow
          else if 2 ^ 128 \<le> v then Some ErrUint128Overflow else None)"
  by (auto simp: holds_def Validate_def big_Sign_def big_BitLen_gt)

lemma Validate_in_range: "holds h u v \<Longrightarrow> in_range v \<Longrightarrow> Validate h u = Inr None"
  by (simp add: Validate_holds in_range_def)

lemma length_big_Bytes_in_range: "in_range v \<Longrightarrow> length (big_Bytes v) \<le> 16"
proof -
  assume "in_range v"
  then have "nat \<bar>v\<bar> < 2 ^ 128" by (simp add: in_range_def nat_less_iff)
  also have "(2::nat) ^ 128 = 256 ^ 16" by simp
  finally show ?thesis by (simp add: big_Bytes_def length_nat_bytes_le)
qed

lemma copy_from_pad:
  "length bs \<le> 16 \<Longrightarrow>
   copy_from (replicate 16 (0::byte)) (int Uint128Bytes - int (length bs)) bs
     = Inr (replicate (16 - length bs) 0 @ bs)"
  by (simp add: copy_from_def copy_def Uint128Bytes_def nat_diff_distrib' min_def)

lemma ToFixedSizeBytes_in_range:
  assumes "holds h u v" and "in_range v"
  shows "ToFixedSizeBytes h u = Inr (replicate (16 - length (big_Bytes v)) 0 @ big_Bytes v, None)"
proof -
  have len: "length (big_Bytes v) \<le> 16" using assms(2) by (rule length_big_Bytes_in_range)
  have ld: "load h (Int' u) = Some v" using assms(1) by (simp add: holds_def)
  show ?thesis
  proof (cases "length (big_Bytes v) = 0")
    case True
    then show ?thesis
      by (simp add: ToFixedSizeBytes_def Validate_in_range [OF assms] ld)
  next
    case False
    then have "int Uint128Bytes - int (length (big_Bytes v)) < int Uint128Bytes" by simp
    with False show ?thesis
      by (simp add: ToFixedSizeBytes_def Validate_in_range [OF assms] ld copy_from_pad [OF len] Let_def)
  qed
qed

lemma holds_store: "holds h u w \<Longrightarrow> holds (store h (Int' u) v) u v"
  by (auto simp: holds_def load_def store_def split: ptr.splits if_splits)

lemma FromFixedSizeByteSlice_16:
  assumes "length bytes = 16" and "holds h u w"
  shows "FromFixedSizeByteSlice h u bytes = Inr (Inr u, store h (Int' u) (big_SetBytes bytes))"
proof -
  have len: "length bytes = Uint128Bytes" using assms(1) by (simp add: Uint128Bytes_def)
  have ld: "load h (Int' u) = Some w" using assms(2) by (simp add: holds_def)
  have le: "skip_zeros bytes 0 \<le> Uint128Bytes" by (rule skip_zeros_le) simp
  have val: "big_SetBytes (drop (skip_zeros bytes 0) bytes) = big_SetBytes bytes"
    using big_SetBytes_skip_zeros [OF len, of 0] by simp
  show ?thesis
  proof (cases "skip_zeros bytes 0 < Uint128Bytes")
    case True
    then show ?thesis
      by (simp add: FromFixedSizeByteSlice_def len val Int_set_def ld Let_def)
  next
    case False
    with le have "skip_zeros bytes 0 = Uint128Bytes" by simp
    with val len have "big_SetBytes bytes = 0" by (simp add: big_SetBytes_def)
    with False show ?thesis
      by (simp add: FromFixedSizeByteSlice_def len Int_set_def ld Let_def)
  qed
qed

lemma FromFixedSizeByteSlice_bad_length:
  "length bytes \<noteq> 16 \<Longrightarrow> FromFixedSizeByteSlice h u bytes = Inr (Inl ErrUint128InvalidBytesSize, h)"
  by (simp add: FromFixedSizeByteSlice_def Uint128Bytes_def)


lemma in_range_iff: "in_range v \<longleftrightarrow> 0 \<le> v \<and> big_BitLen v \<le> Uint128Bits"
  using big_BitLen_gt [of v] by (auto simp: in_range_def)

subsection \<open>Decimal text\<close>

lemma digits_nth: "d < 10 \<Longrightarrow> digit_val (digits ! d) = Some d"
proof -
  assume "d < 10"
  then have "d \<in> {0, 1, 2, 3, 4, 5, 6, 7, 8, 9}" by auto
  then show ?thesis by (auto simp: digits_def digit_val_def)
qed

lemma digits_nth_not_sign: "d < 10 \<Longrightarrow> digits ! d \<noteq> CHR ''-'' \<and> digits ! d \<noteq> CHR ''+'' \<and> digits ! d \<in> set digits"
proof -
  assume "d < 10"
  then have "d \<in> {0, 1, 2, 3, 4, 5, 6, 7, 8, 9}" by auto
  then show ?thesis by (auto simp: digits_def)
qed

lemma digits_nth_nonzero: "d < 10 \<Longrightarrow> d \<noteq> 0 \<Longrightarrow> digits ! d \<noteq> CHR ''0''"
proof -
  assume "d < 10" "d \<noteq> 0"
  then have "d \<in> {1, 2, 3, 4, 5, 6, 7, 8, 9}" by auto
  then show ?thesis by (auto simp: digits_def)
qed

lemma nat_itoa_nonempty: "nat_itoa n \<noteq> []"
  by (subst nat_itoa.simps) simp

lemma set_nat_itoa: "set (nat_itoa n) \<subseteq> set digits"
proof (induction n rule: nat_itoa.induct)
  case (1 n)
  show ?case
  proof (cases "n < 10")
    case True
    then show ?thesis by (subst nat_itoa.simps) (simp add: digits_nth_not_sign)
  next
    case False
    have "n mod 10 < 10" by simp
    then have "digits ! (n mod 10) \<in> set digits" by (simp add: digits_nth_not_sign)
    with False 1 show ?thesis by (subst nat_itoa.simps) simp
  qed
qed

lemma hd_nat_itoa: "n \<noteq> 0 \<Longrightarrow> hd (nat_itoa n) \<noteq> CHR ''0''"
proof (induction n rule: nat_itoa.induct)
  case (1 n)
  show ?case
  proof (cases "n < 10")
    case True
    with "1.prems" show ?thesis by (subst nat_itoa.simps) (simp add: digits_nth_nonzero)
  next
    case False
    then have "n div 10 \<noteq> 0" by simp
    with False 1 show ?thesis by (subst nat_itoa.simps) (simp add: nat_itoa_nonempty)
  qed
qed

lemma scan_digits_nat_itoa:
  "scan_digits 0 count (nat_itoa n @ r) = scan_digits n (count + length (nat_itoa n)) r"
proof (induction n arbitrary: r rule: nat_itoa.induct)
  case (1 n)
  show ?case
  proof (cases "n < 10")
    case True
    then show ?thesis by (subst (1 2) nat_itoa.simps) (simp add: digits_nth)
  next
    case False
    have d: "digit_val (digits ! (n mod 10)) = Some (n mod 10)" by (simp add: digits_nth)
    have "scan_digits 0 count (nat_itoa n @ r)
        = scan_digits 0 count (nat_itoa (n div 10) @ (digits ! (n mod 10) # r))"
      using False by (subst nat_itoa.simps) simp
    also have "\<dots> = scan_digits (n div 10) (count + length (nat_itoa (n div 10))) (digits ! (n mod 10) # r)"
      using False by (rule "1.IH")
    also have "\<dots> = scan_digits n (count + length (nat_itoa n)) r"
      using False d by (subst (2) nat_itoa.simps) simp
    finally show ?thesis .
  qed
qed

lemma scanSign_nat_itoa: "scanSign (nat_itoa n) = Some (False, nat_itoa n)"
proof -
  obtain c cs where eq: "nat_itoa n = c # cs"
    using nat_itoa_nonempty [of n] by (cases "nat_itoa n") auto
  have "c \<in> set digits" using set_nat_itoa [of n] eq by auto
  then have "c \<noteq> CHR ''-''" "c \<noteq> CHR ''+''" by (auto simp: digits_def)
  then show ?thesis by (simp add: scanSign_def eq)
qed

lemma big_SetString_nat_itoa: "big_SetString (nat_itoa n) = Some (int n)"
proof -
  have "scan_digits 0 0 (nat_itoa n) = (n, length (nat_itoa n), [])"
    using scan_digits_nat_itoa [of 0 n "[]"] by simp
  then show ?thesis by (simp add: big_SetString_def scanSign_nat_itoa nat_itoa_nonempty)
qed


subsection \<open>Arithmetic on a fresh cell\<close>

lemma load_append: "load h p = Some a \<Longrightarrow> load (h @ [c]) p = Some a"
  by (auto simp: load_def nth_append split: if_splits ptr.splits)

lemma load_new: "load (h @ [c]) (Addr (length h)) = Some c"
  by (simp add: load_def)

lemma Int_op_fresh:
  assumes "load h p = Some a" and "load h q = Some b"
  shows "Int_op f (h @ [0]) (Addr (length h)) p q =
           (case f a b of Inl e \<Rightarrow> Inl e | Inr c \<Rightarrow> Inr (h @ [c]))"
  using assms by (simp add: Int_op_def load_append load_new store_def split: sum.splits)

lemma validated_new:
  "validated (h @ [c]) \<lparr>Int' = Addr (length h)\<rparr> =
     Inr (if c < 0 then Inl ErrUint128Underflow
          else if 2 ^ 128 \<le> c then Inl ErrUint128Overflow
          else Inr \<lparr>Int' = Addr (length h)\<rparr>, h @ [c])"
proof -
  have "holds (h @ [c]) \<lparr>Int' = Addr (length h)\<rparr> c" by (simp add: holds_def load_new)
  then show ?thesis by (simp add: validated_def Validate_holds)
qed

lemma Add_holds:
  assumes "holds h u a" and "holds h x b"
  shows "Add h u x = validated (h @ [a + b]) \<lparr>Int' = Addr (length h)\<rparr>"
  using assms by (simp add: Add_def NewUint128_def alloc_def Int_Add_def Int_op_fresh holds_def)

lemma Sub_holds:
  assumes "holds h u a" and "holds h x b"
  shows "Sub h u x = validated (h @ [a - b]) \<lparr>Int' = Addr (length h)\<rparr>"
  using assms by (simp add: Sub_def NewUint128_def alloc_def Int_Sub_def Int_op_fresh holds_def)

lemma Mul_holds:
  assumes "holds h u a" and "holds h x b"
  shows "Mul h u x = validated (h @ [a * b]) \<lparr>Int' = Addr (length h)\<rparr>"
  using assms by (simp add: Mul_def NewUint128_def alloc_def Int_Mul_def Int_op_fresh holds_def)

lemma Exp_holds:
  assumes "holds h u a" and "holds h x b"
  shows "Exp h u x = validated (h @ [big_Exp a b]) \<lparr>Int' = Addr (length h)\<rparr>"
  using assms by (simp add: Exp_def NewUint128_def alloc_def Int_Exp_def Int_op_fresh holds_def)

lemma Div_holds:
  assumes "holds h u a" and "holds h x b"
  shows "Div h u x = (case big_Div a b of
            Inl e \<Rightarrow> Inl e
          | Inr c \<Rightarrow> validated (h @ [c]) \<lparr>Int' = Addr (length h)\<rparr>)"
  using assms
  by (simp add: Div_def NewUint128_def alloc_def Int_Div_def Int_op_fresh holds_def split: sum.splits)

text \<open>Nil never becomes a cell: an arithmetic method with a nil operand panics.\<close>

lemma load_NilPtr: "load h NilPtr = None"
  by (simp add: load_def)

lemma Int_op_nil: "x = NilPtr \<or> y = NilPtr \<Longrightarrow> Int_op f h z x y = Inl NilDereference"
  by (auto simp: Int_op_def load_NilPtr split: option.splits)

lemma nil_operand_panics:
  assumes "Int' u = NilPtr \<or> Int' x = NilPtr"
  shows "Add h u x = Inl NilDereference" and "Sub h u x = Inl NilDereference"
    and "Mul h u x = Inl NilDereference" and "Div h u x = Inl NilDereference"
    and "Exp h u x = Inl NilDereference"
  using assms
  by (simp_all add: Add_def Sub_def Mul_def Div_def Exp_def NewUint128_def alloc_def
      Int_Add_def Int_Sub_def Int_Mul_def Int_Div_def Int_Exp_def Int_op_nil)

lemma big_Div_zero: "big_Div a 0 = Inl DivisionByZero"
  by (simp add: big_Div_def big_QuoRem_def)

lemma big_Div_nonneg: "0 \<le> a \<Longrightarrow> 0 < b \<Longrightarrow> big_Div a b = Inr (a div b)"
proof -
  assume a: "0 \<le> a" and b: "0 < b"
  have "a - b * (a div b) = a mod b" by (simp add: minus_mult_div_eq_mod)
  then have "0 \<le> a - b * (a div b)" using b by simp
  with a b show ?thesis
    by (simp add: big_Div_def big_QuoRem_def Let_def sgn_if)
qed

text \<open>The quotient of Euclidean division leaves a remainder in \<open>0..|y|-1\<close>.\<close>

lemma big_Div_euclidean:
  assumes "y \<noteq> 0"
  shows "\<exists>q. big_Div x y = Inr q \<and> 0 \<le> x - y * q \<and> x - y * q < \<bar>y\<bar>"
proof -
  define d where "d = \<bar>x\<bar> div \<bar>y\<bar>"
  define m where "m = \<bar>x\<bar> mod \<bar>y\<bar>"
  define qt where "qt = sgn x * sgn y * d"
  define r where "r = x - y * qt"
  have m: "0 \<le> m" "m < \<bar>y\<bar>" using assms by (simp_all add: m_def)
  have "\<bar>x\<bar> = \<bar>y\<bar> * d + m" by (simp add: d_def m_def)
  then have "sgn x * \<bar>x\<bar> = sgn x * (\<bar>y\<bar> * d) + sgn x * m" by (simp add: algebra_simps)
  moreover have "sgn x * \<bar>x\<bar> = x" by (simp add: sgn_if)
  moreover have "y * qt = sgn x * ((y * sgn y) * d)" by (simp add: qt_def algebra_simps)
  moreover have "y * sgn y = \<bar>y\<bar>" by (simp add: sgn_if)
  ultimately have r: "r = sgn x * m" by (simp add: r_def)
  have res: "big_Div x y = Inr (if r < 0 then (if y < 0 then qt + 1 else qt - 1) else qt)"
    using assms by (simp add: big_Div_def big_QuoRem_def Let_def qt_def r_def d_def)
  have up: "x - y * (qt + 1) = r - y" and down: "x - y * (qt - 1) = r + y"
    by (simp_all add: r_def algebra_simps)
  show ?thesis
  proof (cases "r < 0")
    case False
    with r m have "0 \<le> r" "r < \<bar>y\<bar>" by (auto simp: sgn_if split: if_splits)
    with False res show ?thesis by (simp add: r_def)
  next
    case True
    with r m have rm: "r = - m" "0 < m" by (auto simp: sgn_if split: if_splits)
    show ?thesis
    proof (cases "y < 0")
      case True
      with rm m \<open>r < 0\<close> res up show ?thesis by simp
    next
      case False
      with rm m \<open>r < 0\<close> res down show ?thesis by simp
    qed
  qed
qed


subsection \<open>Encoding of invalid values, and small examples\<close>

lemma ToFixedSizeBytes_invalid:
  "holds h u v \<Longrightarrow> \<not> in_range v \<Longrightarrow>
   ToFixedSizeBytes h u =
     Inr (replicate 16 0, Some (if v < 0 then ErrUint128Underflow else ErrUint128Overflow))"
  by (auto simp: ToFixedSizeBytes_def Validate_holds in_range_def)

lemma big_Bytes_258: "big_Bytes 258 = [1, 2]"
  by (simp add: big_Bytes_def nat_bytes.simps)

lemma big_BitLen_258: "big_BitLen 258 = 9"
  by (simp add: big_BitLen_def nat_bitLen.simps)

lemma big_SetBytes_example:
  "big_SetBytes [0, 0, 0, 0, 0, 0, 0, 0, 0, 0, 0, 0, 0, 0, 1, 2] = 258"
  by (simp add: big_SetBytes_def)

subsection \<open>Outcomes of the checked operations\<close>

lemma validated_new_returns:
  "0 \<le> c \<Longrightarrow> c < 2 ^ 128 \<Longrightarrow> returns (validated (h @ [c]) \<lparr>Int' = Addr (length h)\<rparr>) c"
  by (simp add: validated_new returns_def holds_def load_new)

lemma validated_new_fails:
  "fails_with (validated (h @ [c]) \<lparr>Int' = Addr (length h)\<rparr>) e \<longleftrightarrow>
     (c < 0 \<and> e = ErrUint128Underflow) \<or> (0 \<le> c \<and> 2 ^ 128 \<le> c \<and> e = ErrUint128Overflow)"
  by (auto simp: validated_new fails_with_def)

lemma trunc_quot_nonneg: "0 \<le> a \<Longrightarrow> 0 < b \<Longrightarrow> trunc_quot a b = a div b"
  by (simp add: trunc_quot_def sgn_if)

lemma big_Exp_nonneg: "0 \<le> b \<Longrightarrow> big_Exp a b = a ^ nat b"
  by (cases "b = 0") (simp_all add: big_Exp_def)

subsection \<open>What an arithmetic call leaves alone\<close>

lemma holds_allocated: "holds h u a \<Longrightarrow> \<exists>i. Int' u = Addr i \<and> i < length h"
  by (simp add: holds_def load_def split: if_splits ptr.splits)

lemma operands_kept_validated_new:
  assumes "holds h u a" and "holds h x b"
  shows "operands_kept h u x (validated (h @ [c]) \<lparr>Int' = Addr (length h)\<rparr>)"
proof -
  have lu: "load (h @ [c]) (Int' u) = load h (Int' u)"
    using assms(1) by (simp add: holds_def load_append)
  have lx: "load (h @ [c]) (Int' x) = load h (Int' x)"
    using assms(2) by (simp add: holds_def load_append)
  obtain i j where "Int' u = Addr i" "i < length h" "Int' x = Addr j" "j < length h"
    using assms holds_allocated by blast
  with lu lx show ?thesis
    by (auto simp: operands_kept_def validated_new load_def)
qed

lemma big_Div_total: "b \<noteq> 0 \<Longrightarrow> \<exists>c. big_Div a b = Inr c"
  by (simp add: big_Div_def big_QuoRem_def Let_def)

subsection \<open>Decimal value and parsing\<close>

lemma dec_value_snoc: "dec_value (s @ [ch]) = dec_value s * 10 + (of_char ch - 48)"
  by (simp add: dec_value_def)

lemma digits_nth_code: "d < 10 \<Longrightarrow> (of_char (digits ! d) :: nat) - 48 = d"
proof -
  assume "d < 10"
  then have "d \<in> {0, 1, 2, 3, 4, 5, 6, 7, 8, 9}" by auto
  then show ?thesis by (auto simp: digits_def)
qed

lemma dec_value_nat_itoa: "dec_value (nat_itoa n) = n"
proof (induction n rule: nat_itoa.induct)
  case (1 n)
  show ?case
  proof (cases "n < 10")
    case True
    then show ?thesis
      by (subst nat_itoa.simps) (simp add: dec_value_def digits_nth_code)
  next
    case False
    have "dec_value (nat_itoa n) = dec_value (nat_itoa (n div 10)) * 10 + n mod 10"
      using False by (subst nat_itoa.simps) (simp add: dec_value_snoc digits_nth_code)
    with False 1 show ?thesis by simp
  qed
qed

lemma nat_itoa_0: "nat_itoa 0 = ''0''"
  by (subst nat_itoa.simps) (simp add: digits_def)

lemma nat_itoa_120: "nat_itoa 120 = ''120''"
  by (simp add: nat_itoa.simps digits_def)

lemma NewUint128FromString_parsed:
  "big_SetString str = Some v \<Longrightarrow>
   NewUint128FromString h str = validated (h @ [v]) \<lparr>Int' = Addr (length h)\<rparr>"
  by (simp add: NewUint128FromString_def alloc_def store_def)

section \<open>The claims\<close>

text \<open>
  C1. For every value \<open>v\<close> with \<open>0 \<le> v \<le> 2^128 - 1\<close>, \<open>ToFixedSizeBytes\<close> on a Uint128
  holding \<open>v\<close> succeeds and yields exactly 16 bytes, and \<open>FromFixedSizeByteSlice\<close> on those
  bytes (with any receiver whose big integer exists) succeeds and leaves the receiver
  holding \<open>v\<close>: decoding after encoding is the identity on the valid range.
\<close>

theorem fixed_size_bytes_round_trip:
  assumes "in_range v" and "holds h u v" and "holds h r w"
  shows "\<exists>bs h'. ToFixedSizeBytes h u = Inr (bs, None) \<and> length bs = 16 \<and>
           FromFixedSizeByteSlice h r bs = Inr (Inr r, h') \<and> holds h' r v"
proof -
  let ?bs = "replicate (16 - length (big_Bytes v)) 0 @ big_Bytes v"
  have enc: "ToFixedSizeBytes h u = Inr (?bs, None)"
    using assms(2,1) by (rule ToFixedSizeBytes_in_range)
  have len: "length ?bs = 16"
    using length_big_Bytes_in_range [OF assms(1)] by simp
  have "big_SetBytes ?bs = int (nat \<bar>v\<bar>)"
    by (simp add: big_SetBytes_replicate_0 big_Bytes_def big_SetBytes_nat_bytes)
  then have val: "big_SetBytes ?bs = v"
    using assms(1) by (simp add: in_range_def)
  have dec: "FromFixedSizeByteSlice h r ?bs = Inr (Inr r, store h (Int' r) v)"
    using FromFixedSizeByteSlice_16 [OF len assms(3)] val by simp
  have "holds (store h (Int' r) v) r v"
    using assms(3) by (rule holds_store)
  with enc len dec show ?thesis by blast
qed

text \<open>The round trip at \<open>v = 258\<close>, encoded from one cell and decoded into another.\<close>

theorem fixed_size_bytes_round_trip_witness:
  "in_range 258 \<and> holds [258, 7] \<lparr>Int' = Addr 0\<rparr> 258 \<and> holds [258, 7] \<lparr>Int' = Addr 1\<rparr> 7 \<and>
   (\<exists>bs h'. ToFixedSizeBytes [258, 7] \<lparr>Int' = Addr 0\<rparr> = Inr (bs, None) \<and> length bs = 16 \<and>
      FromFixedSizeByteSlice [258, 7] \<lparr>Int' = Addr 1\<rparr> bs = Inr (Inr \<lparr>Int' = Addr 1\<rparr>, h') \<and>
      holds h' \<lparr>Int' = Addr 1\<rparr> 258)"
proof -
  have a: "in_range 258" by (simp add: in_range_def)
  have b: "holds [258, 7] \<lparr>Int' = Addr 0\<rparr> 258" by (simp add: holds_def load_def)
  have c: "holds [258, 7] \<lparr>Int' = Addr 1\<rparr> 7" by (simp add: holds_def load_def)
  from fixed_size_bytes_round_trip [OF a b c] a b c show ?thesis by blast
qed

text \<open>
  C2, as stated, says \<open>ToFixedSizeBytes\<close> fails with Overflow if the bit length of the value
  exceeds 128. The receiver is validated first and \<open>Validate\<close> tests the sign before the
  bit length: \<open>-(2^128)\<close> has bit length 129, and \<open>ToFixedSizeBytes\<close> fails with Underflow
  for it.
\<close>

theorem ToFixedSizeBytes_long_negative_counterexample:
  "holds [- (2 ^ 128)] \<lparr>Int' = Addr 0\<rparr> (- (2 ^ 128)) \<and>
   Uint128Bits < big_BitLen (- (2 ^ 128)) \<and>
   ToFixedSizeBytes [- (2 ^ 128)] \<lparr>Int' = Addr 0\<rparr> = Inr (replicate 16 0, Some ErrUint128Underflow) \<and>
   ToFixedSizeBytes [- (2 ^ 128)] \<lparr>Int' = Addr 0\<rparr> \<noteq> Inr (replicate 16 0, Some ErrUint128Overflow)"
proof -
  have a: "holds [- (2 ^ 128)] \<lparr>Int' = Addr 0\<rparr> (- (2 ^ 128))" by (simp add: holds_def load_def)
  have b: "Uint128Bits < big_BitLen (- (2 ^ 128))" by (simp add: big_BitLen_gt)
  have "\<not> in_range (- (2 ^ 128))" by (simp add: in_range_def)
  with a have c: "ToFixedSizeBytes [- (2 ^ 128)] \<lparr>Int' = Addr 0\<rparr>
      = Inr (replicate 16 0, Some ErrUint128Underflow)"
    using ToFixedSizeBytes_invalid [of "[- (2 ^ 128)]" "\<lparr>Int' = Addr 0\<rparr>" "- (2 ^ 128)"] by simp
  from a b c show ?thesis by simp
qed

text \<open>
  C2, amended. \<open>ToFixedSizeBytes\<close> validates its receiver first: a negative value fails
  with Underflow; otherwise, a value whose bit length exceeds 128 fails with Overflow; in
  both cases the array returned is the zero array, no byte of an encoding written into
  it. Otherwise the result is the bytes of the value, zero-padded on the left to 16
  bytes: it has length 16, its big-endian value is \<open>v\<close>, and it is the only 16-byte
  sequence with that value. The value 0 encodes as 16 zero bytes.
\<close>

theorem ToFixedSizeBytes_validates_then_pads:
  assumes "holds h u v"
  shows "ToFixedSizeBytes h u =
           (if v < 0 then Inr (replicate 16 0, Some ErrUint128Underflow)
            else if Uint128Bits < big_BitLen v then Inr (replicate 16 0, Some ErrUint128Overflow)
            else Inr (replicate (16 - length (big_Bytes v)) 0 @ big_Bytes v, None))
         \<and> (\<not> v < 0 \<and> \<not> Uint128Bits < big_BitLen v \<longrightarrow>
              (\<exists>bs. ToFixedSizeBytes h u = Inr (bs, None) \<and> length bs = 16 \<and> be_value bs = v \<and>
                 (\<forall>bs'. length bs' = 16 \<and> be_value bs' = v \<longrightarrow> bs' = bs)))
         \<and> (v = 0 \<longrightarrow> ToFixedSizeBytes h u = Inr (replicate 16 0, None))"
proof -
  have bad: "\<not> in_range v \<longleftrightarrow> v < 0 \<or> Uint128Bits < big_BitLen v"
    by (auto simp: in_range_iff)
  have first: "ToFixedSizeBytes h u =
           (if v < 0 then Inr (replicate 16 0, Some ErrUint128Underflow)
            else if Uint128Bits < big_BitLen v then Inr (replicate 16 0, Some ErrUint128Overflow)
            else Inr (replicate (16 - length (big_Bytes v)) 0 @ big_Bytes v, None))"
  proof (cases "in_range v")
    case True
    with bad ToFixedSizeBytes_in_range [OF assms True] show ?thesis by simp
  next
    case False
    with bad ToFixedSizeBytes_invalid [OF assms False] show ?thesis by auto
  qed
  have second: "\<exists>bs. ToFixedSizeBytes h u = Inr (bs, None) \<and> length bs = 16 \<and> be_value bs = v \<and>
                 (\<forall>bs'. length bs' = 16 \<and> be_value bs' = v \<longrightarrow> bs' = bs)"
    if ok: "\<not> v < 0 \<and> \<not> Uint128Bits < big_BitLen v"
  proof -
    let ?bs = "replicate (16 - length (big_Bytes v)) 0 @ big_Bytes v"
    from ok bad have rng: "in_range v" by blast
    have enc: "ToFixedSizeBytes h u = Inr (?bs, None)"
      using assms rng by (rule ToFixedSizeBytes_in_range)
    have len: "length ?bs = 16"
      using length_big_Bytes_in_range [OF rng] by simp
    have "big_SetBytes ?bs = int (nat \<bar>v\<bar>)"
      by (simp add: big_SetBytes_replicate_0 big_Bytes_def big_SetBytes_nat_bytes)
    then have val: "be_value ?bs = v"
      using rng by (simp add: in_range_def big_SetBytes_be_value)
    have uniq: "bs' = ?bs" if "length bs' = 16 \<and> be_value bs' = v" for bs'
    proof (rule big_SetBytes_inj)
      show "length bs' = length ?bs" using that len by simp
      show "big_SetBytes bs' = big_SetBytes ?bs" using that val by (simp add: big_SetBytes_be_value)
    qed
    from enc len val uniq show ?thesis by blast
  qed
  have third: "ToFixedSizeBytes h u = Inr (replicate 16 0, None)" if "v = 0"
  proof -
    have "big_Bytes 0 = []" by (simp add: big_Bytes_def nat_bytes.simps)
    moreover have "in_range 0" by (simp add: in_range_def)
    ultimately show ?thesis using ToFixedSizeBytes_in_range [of h u 0] assms that by simp
  qed
  from first second third show ?thesis by blast
qed

text \<open>
  The encoding of 258, of 0, and the two failures at \<open>-1\<close> and \<open>2^128\<close>.
\<close>

theorem ToFixedSizeBytes_validates_then_pads_witness:
  "holds [258] \<lparr>Int' = Addr 0\<rparr> 258 \<and>
   ToFixedSizeBytes [258] \<lparr>Int' = Addr 0\<rparr> = Inr ([0, 0, 0, 0, 0, 0, 0, 0, 0, 0, 0, 0, 0, 0, 1, 2], None) \<and>
   (\<exists>bs. ToFixedSizeBytes [258] \<lparr>Int' = Addr 0\<rparr> = Inr (bs, None) \<and> length bs = 16 \<and> be_value bs = 258 \<and>
      (\<forall>bs'. length bs' = 16 \<and> be_value bs' = 258 \<longrightarrow> bs' = bs)) \<and>
   ToFixedSizeBytes [0] \<lparr>Int' = Addr 0\<rparr> = Inr (replicate 16 0, None) \<and>
   ToFixedSizeBytes [- 1] \<lparr>Int' = Addr 0\<rparr> = Inr (replicate 16 0, Some ErrUint128Underflow) \<and>
   ToFixedSizeBytes [2 ^ 128] \<lparr>Int' = Addr 0\<rparr> = Inr (replicate 16 0, Some ErrUint128Overflow)"
proof -
  have a: "holds [258] \<lparr>Int' = Addr 0\<rparr> 258" by (simp add: holds_def load_def)
  have b: "replicate 14 (0::byte) = [0, 0, 0, 0, 0, 0, 0, 0, 0, 0, 0, 0, 0, 0]"
    by (simp add: numeral_eq_Suc)
  note t = ToFixedSizeBytes_validates_then_pads [OF a]
  from t b have c1: "ToFixedSizeBytes [258] \<lparr>Int' = Addr 0\<rparr>
      = Inr ([0, 0, 0, 0, 0, 0, 0, 0, 0, 0, 0, 0, 0, 0, 1, 2], None)"
    by (simp add: big_Bytes_258 big_BitLen_258 Uint128Bits_def)
  have ok: "\<not> (258::int) < 0 \<and> \<not> Uint128Bits < big_BitLen 258"
    by (simp add: big_BitLen_258 Uint128Bits_def)
  from t ok have c2: "\<exists>bs. ToFixedSizeBytes [258] \<lparr>Int' = Addr 0\<rparr> = Inr (bs, None) \<and> length bs = 16 \<and>
      be_value bs = 258 \<and> (\<forall>bs'. length bs' = 16 \<and> be_value bs' = 258 \<longrightarrow> bs' = bs)"
    by blast
  have "holds [0] \<lparr>Int' = Addr 0\<rparr> 0" by (simp add: holds_def load_def)
  from ToFixedSizeBytes_validates_then_pads [OF this]
  have c3: "ToFixedSizeBytes [0] \<lparr>Int' = Addr 0\<rparr> = Inr (replicate 16 0, None)" by blast
  have "holds [- 1] \<lparr>Int' = Addr 0\<rparr> (- 1)" by (simp add: holds_def load_def)
  from ToFixedSizeBytes_validates_then_pads [OF this]
  have c4: "ToFixedSizeBytes [- 1] \<lparr>Int' = Addr 0\<rparr> = Inr (replicate 16 0, Some ErrUint128Underflow)"
    by simp
  have "holds [2 ^ 128] \<lparr>Int' = Addr 0\<rparr> (2 ^ 128)" by (simp add: holds_def load_def)
  from ToFixedSizeBytes_validates_then_pads [OF this]
  have c5: "ToFixedSizeBytes [2 ^ 128] \<lparr>Int' = Addr 0\<rparr> = Inr (replicate 16 0, Some ErrUint128Overflow)"
    by (simp add: big_BitLen_gt)
  from a c1 c2 c3 c4 c5 show ?thesis by blast
qed

text \<open>
  C3. \<open>FromFixedSizeByteSlice\<close> fails with InvalidBytesSize if and only if the input is not
  exactly 16 bytes long. On 16 bytes, with a receiver whose big integer exists, it succeeds
  and the receiver then holds the big-endian value of the bytes; so does
  \<open>FromFixedSizeBytes\<close>, and the constructors \<open>NewUint128FromFixedSizeByteSlice\<close> and
  \<open>NewUint128FromFixedSizeBytes\<close>, which make their own receiver, never fail on 16 bytes.
  The value decoded is always in range, and 16 zero bytes decode to 0.
\<close>

theorem FromFixedSizeByteSlice_accepts_16_bytes:
  "((\<exists>h'. FromFixedSizeByteSlice h u bytes = Inr (Inl ErrUint128InvalidBytesSize, h'))
      \<longleftrightarrow> length bytes \<noteq> 16)
   \<and> (length bytes = 16 \<and> holds h u w \<longrightarrow>
        FromFixedSizeByteSlice h u bytes = Inr (Inr u, store h (Int' u) (be_value bytes))
        \<and> FromFixedSizeBytes h u bytes = Inr (u, store h (Int' u) (be_value bytes))
        \<and> holds (store h (Int' u) (be_value bytes)) u (be_value bytes))
   \<and> (length bytes = 16 \<longrightarrow>
        NewUint128FromFixedSizeByteSlice h bytes
          = Inr (Inr \<lparr>Int' = Addr (length h)\<rparr>, h @ [be_value bytes])
        \<and> NewUint128FromFixedSizeBytes h bytes
          = Inr (\<lparr>Int' = Addr (length h)\<rparr>, h @ [be_value bytes])
        \<and> in_range (be_value bytes))
   \<and> NewUint128FromFixedSizeByteSlice h (replicate 16 0)
        = Inr (Inr \<lparr>Int' = Addr (length h)\<rparr>, h @ [0])"
proof -
  have iff: "(\<exists>h'. FromFixedSizeByteSlice h u bytes = Inr (Inl ErrUint128InvalidBytesSize, h'))
      \<longleftrightarrow> length bytes \<noteq> 16"
  proof (cases "length bytes = 16")
    case False
    then show ?thesis by (simp add: FromFixedSizeByteSlice_bad_length)
  next
    case True
    then have "FromFixedSizeByteSlice h u bytes \<noteq> Inr (Inl ErrUint128InvalidBytesSize, h')" for h'
      by (auto simp: FromFixedSizeByteSlice_def Uint128Bytes_def Let_def split: sum.splits if_splits)
    with True show ?thesis by simp
  qed
  have recv: "FromFixedSizeByteSlice h u bytes = Inr (Inr u, store h (Int' u) (be_value bytes))
        \<and> FromFixedSizeBytes h u bytes = Inr (u, store h (Int' u) (be_value bytes))
        \<and> holds (store h (Int' u) (be_value bytes)) u (be_value bytes)"
    if "length bytes = 16 \<and> holds h u w"
  proof -
    from that have len: "length bytes = 16" and hu: "holds h u w" by simp_all
    show ?thesis
      using FromFixedSizeByteSlice_16 [OF len hu] holds_store [OF hu, of "be_value bytes"]
      by (simp add: FromFixedSizeBytes_def big_SetBytes_be_value)
  qed
  have new: "NewUint128FromFixedSizeByteSlice h bs
          = Inr (Inr \<lparr>Int' = Addr (length h)\<rparr>, h @ [be_value bs])
        \<and> NewUint128FromFixedSizeBytes h bs
          = Inr (\<lparr>Int' = Addr (length h)\<rparr>, h @ [be_value bs])
        \<and> in_range (be_value bs)"
    if len: "length bs = 16" for bs
  proof -
    have fresh: "holds (h @ [0]) \<lparr>Int' = Addr (length h)\<rparr> 0"
      by (simp add: holds_def load_def)
    have "FromFixedSizeByteSlice (h @ [0]) \<lparr>Int' = Addr (length h)\<rparr> bs
        = Inr (Inr \<lparr>Int' = Addr (length h)\<rparr>, h @ [be_value bs])"
      using FromFixedSizeByteSlice_16 [OF len fresh]
      by (simp add: big_SetBytes_be_value store_def)
    moreover have "in_range (be_value bs)"
      using big_SetBytes_bounds [of bs] len by (simp add: in_range_def big_SetBytes_be_value)
    ultimately show ?thesis
      by (simp add: NewUint128FromFixedSizeByteSlice_def NewUint128FromFixedSizeBytes_def
          FromFixedSizeBytes_def NewUint128_def alloc_def)
  qed
  have "be_value (replicate 16 0) = 0"
    using big_SetBytes_replicate_0 [of 16 "[]"]
    by (simp add: big_SetBytes_be_value [symmetric] big_SetBytes_def)
  with new [of "replicate 16 0"]
  have zero: "NewUint128FromFixedSizeByteSlice h (replicate 16 0)
      = Inr (Inr \<lparr>Int' = Addr (length h)\<rparr>, h @ [0])"
    by simp
  from iff recv new zero show ?thesis by blast
qed

text \<open>
  Decoding the 16 bytes of 258 into an existing cell and into a new one, and the failure
  on a slice of 2 bytes.
\<close>

theorem FromFixedSizeByteSlice_accepts_16_bytes_witness:
  "FromFixedSizeByteSlice [7] \<lparr>Int' = Addr 0\<rparr> [0, 0, 0, 0, 0, 0, 0, 0, 0, 0, 0, 0, 0, 0, 1, 2]
     = Inr (Inr \<lparr>Int' = Addr 0\<rparr>, [258]) \<and>
   NewUint128FromFixedSizeBytes [7] [0, 0, 0, 0, 0, 0, 0, 0, 0, 0, 0, 0, 0, 0, 1, 2]
     = Inr (\<lparr>Int' = Addr 1\<rparr>, [7, 258]) \<and>
   (\<exists>h'. FromFixedSizeByteSlice [7] \<lparr>Int' = Addr 0\<rparr> [1, 2] = Inr (Inl ErrUint128InvalidBytesSize, h'))"
proof -
  let ?bs = "[0, 0, 0, 0, 0, 0, 0, 0, 0, 0, 0, 0, 0, 0, 1, 2] :: byte list"
  have v: "be_value ?bs = 258"
    using big_SetBytes_example by (simp only: big_SetBytes_be_value)
  have a: "length ?bs = 16 \<and> holds [7] \<lparr>Int' = Addr 0\<rparr> 7" by (simp add: holds_def load_def)
  have b: "length [1, 2 :: byte] \<noteq> 16" by simp
  from FromFixedSizeByteSlice_accepts_16_bytes [of "[7]" "\<lparr>Int' = Addr 0\<rparr>" ?bs 7] a
  have c1: "FromFixedSizeByteSlice [7] \<lparr>Int' = Addr 0\<rparr> ?bs = Inr (Inr \<lparr>Int' = Addr 0\<rparr>, [258])"
    and c2: "NewUint128FromFixedSizeBytes [7] ?bs = Inr (\<lparr>Int' = Addr 1\<rparr>, [7, 258])"
    by (simp_all add: v store_def)
  from FromFixedSizeByteSlice_accepts_16_bytes [of "[7]" "\<lparr>Int' = Addr 0\<rparr>" "[1, 2]"] b
  have c3: "\<exists>h'. FromFixedSizeByteSlice [7] \<lparr>Int' = Addr 0\<rparr> [1, 2] = Inr (Inl ErrUint128InvalidBytesSize, h')"
    by blast
  from c1 c2 c3 show ?thesis by blast
qed

text \<open>
  C4, as stated, says \<open>Validate\<close> returns Overflow for any value with bit length greater
  than 128. The bit length is that of the absolute value, and the sign is tested first:
  \<open>-(2^128)\<close> has bit length 129 and \<open>Validate\<close> returns Underflow for it.
\<close>

theorem Validate_long_negative_counterexample:
  "holds [- (2 ^ 128)] \<lparr>Int' = Addr 0\<rparr> (- (2 ^ 128)) \<and>
   Uint128Bits < big_BitLen (- (2 ^ 128)) \<and>
   Validate [- (2 ^ 128)] \<lparr>Int' = Addr 0\<rparr> = Inr (Some ErrUint128Underflow) \<and>
   Validate [- (2 ^ 128)] \<lparr>Int' = Addr 0\<rparr> \<noteq> Inr (Some ErrUint128Overflow)"
proof -
  have a: "holds [- (2 ^ 128)] \<lparr>Int' = Addr 0\<rparr> (- (2 ^ 128))" by (simp add: holds_def load_def)
  have b: "Uint128Bits < big_BitLen (- (2 ^ 128))" by (simp add: big_BitLen_gt)
  have c: "Validate [- (2 ^ 128)] \<lparr>Int' = Addr 0\<rparr> = Inr (Some ErrUint128Underflow)"
    using Validate_holds [OF a] by simp
  from a b c show ?thesis by simp
qed

text \<open>
  C4, amended. \<open>Validate\<close> returns no error if and only if the integer is non-negative and
  has bit length at most 128; it returns Underflow for any negative value, and Overflow
  for any non-negative value with bit length greater than 128. So
  \<open>NewUint128FromBigInt\<close> fails with Underflow on \<open>-1\<close>, fails with Overflow on \<open>2^128\<close>, and
  succeeds on \<open>2^128 - 1\<close>, returning the Uint128 around that integer.
\<close>

theorem Validate_range:
  assumes "holds h u v"
  shows "(Validate h u = Inr None \<longleftrightarrow> 0 \<le> v \<and> big_BitLen v \<le> Uint128Bits)
     \<and> (v < 0 \<longrightarrow> Validate h u = Inr (Some ErrUint128Underflow))
     \<and> (0 \<le> v \<and> Uint128Bits < big_BitLen v \<longrightarrow> Validate h u = Inr (Some ErrUint128Overflow))
     \<and> (v = - 1 \<longrightarrow> NewUint128FromBigInt h (Int' u) = Inr (Inl ErrUint128Underflow, h))
     \<and> (v = 2 ^ 128 \<longrightarrow> NewUint128FromBigInt h (Int' u) = Inr (Inl ErrUint128Overflow, h))
     \<and> (v = 2 ^ 128 - 1 \<longrightarrow> NewUint128FromBigInt h (Int' u) = Inr (Inr u, h))"
proof -
  note V = Validate_holds [OF assms]
  have gt: "Uint128Bits < big_BitLen v \<longleftrightarrow> 2 ^ 128 \<le> v" if "0 \<le> v"
    using that big_BitLen_gt [of v] by simp
  have u: "\<lparr>Int' = Int' u\<rparr> = u" by simp
  have 1: "Validate h u = Inr None \<longleftrightarrow> 0 \<le> v \<and> big_BitLen v \<le> Uint128Bits"
    using V gt by (cases "0 \<le> v") auto
  have 2: "v < 0 \<longrightarrow> Validate h u = Inr (Some ErrUint128Underflow)"
    using V by simp
  have 3: "0 \<le> v \<and> Uint128Bits < big_BitLen v \<longrightarrow> Validate h u = Inr (Some ErrUint128Overflow)"
    using V gt by auto
  have 4: "v = - 1 \<longrightarrow> NewUint128FromBigInt h (Int' u) = Inr (Inl ErrUint128Underflow, h)"
    using V by (simp add: NewUint128FromBigInt_def validated_def u)
  have 5: "v = 2 ^ 128 \<longrightarrow> NewUint128FromBigInt h (Int' u) = Inr (Inl ErrUint128Overflow, h)"
    using V by (simp add: NewUint128FromBigInt_def validated_def u)
  have 6: "v = 2 ^ 128 - 1 \<longrightarrow> NewUint128FromBigInt h (Int' u) = Inr (Inr u, h)"
    using V assms by (simp add: NewUint128FromBigInt_def validated_def u)
  from 1 2 3 4 5 6 show ?thesis by blast
qed

text \<open>
  \<open>Validate\<close> at 5, \<open>-1\<close> and \<open>2^128\<close>, and the three calls of \<open>NewUint128FromBigInt\<close>.
\<close>

theorem Validate_range_witness:
  "Validate [5] \<lparr>Int' = Addr 0\<rparr> = Inr None \<and>
   Validate [- 1] \<lparr>Int' = Addr 0\<rparr> = Inr (Some ErrUint128Underflow) \<and>
   Validate [2 ^ 128] \<lparr>Int' = Addr 0\<rparr> = Inr (Some ErrUint128Overflow) \<and>
   NewUint128FromBigInt [- 1] (Addr 0) = Inr (Inl ErrUint128Underflow, [- 1]) \<and>
   NewUint128FromBigInt [2 ^ 128] (Addr 0) = Inr (Inl ErrUint128Overflow, [2 ^ 128]) \<and>
   NewUint128FromBigInt [2 ^ 128 - 1] (Addr 0) = Inr (Inr \<lparr>Int' = Addr 0\<rparr>, [2 ^ 128 - 1])"
proof -
  have h5: "holds [5] \<lparr>Int' = Addr 0\<rparr> 5" by (simp add: holds_def load_def)
  have hm: "holds [- 1] \<lparr>Int' = Addr 0\<rparr> (- 1)" by (simp add: holds_def load_def)
  have hb: "holds [2 ^ 128] \<lparr>Int' = Addr 0\<rparr> (2 ^ 128)" by (simp add: holds_def load_def)
  have ht: "holds [2 ^ 128 - 1] \<lparr>Int' = Addr 0\<rparr> (2 ^ 128 - 1)" by (simp add: holds_def load_def)
  have b5: "big_BitLen 5 \<le> Uint128Bits"
    using big_BitLen_gt [of 5] by simp
  have bb: "Uint128Bits < big_BitLen (2 ^ 128)" by (simp add: big_BitLen_gt)
  from Validate_range [OF h5] b5 have c1: "Validate [5] \<lparr>Int' = Addr 0\<rparr> = Inr None" by simp
  from Validate_range [OF hm]
  have c2: "Validate [- 1] \<lparr>Int' = Addr 0\<rparr> = Inr (Some ErrUint128Underflow)"
    and c4: "NewUint128FromBigInt [- 1] (Addr 0) = Inr (Inl ErrUint128Underflow, [- 1])" by simp_all
  from Validate_range [OF hb] bb
  have c3: "Validate [2 ^ 128] \<lparr>Int' = Addr 0\<rparr> = Inr (Some ErrUint128Overflow)"
    and c5: "NewUint128FromBigInt [2 ^ 128] (Addr 0) = Inr (Inl ErrUint128Overflow, [2 ^ 128])" by simp_all
  from Validate_range [OF ht]
  have c6: "NewUint128FromBigInt [2 ^ 128 - 1] (Addr 0) = Inr (Inr \<lparr>Int' = Addr 0\<rparr>, [2 ^ 128 - 1])" by simp
  from c1 c2 c3 c4 c5 c6 show ?thesis by blast
qed

text \<open>
  C5. For valid operands holding \<open>a\<close> and \<open>b\<close>: \<open>Sub\<close> fails with Underflow exactly when
  \<open>a < b\<close>; \<open>Add\<close> and \<open>Mul\<close> fail with Overflow exactly when the exact sum or product is
  at least \<open>2^128\<close>; in every other case the Uint128 returned holds the exact difference,
  sum or product.
\<close>

theorem Add_Sub_Mul_exact_then_checked:
  assumes "holds h u a" and "holds h x b" and "in_range a" and "in_range b"
  shows "(fails_with (Sub h u x) ErrUint128Underflow \<longleftrightarrow> a < b)
     \<and> (fails_with (Add h u x) ErrUint128Overflow \<longleftrightarrow> 2 ^ 128 \<le> a + b)
     \<and> (fails_with (Mul h u x) ErrUint128Overflow \<longleftrightarrow> 2 ^ 128 \<le> a * b)
     \<and> (\<not> a < b \<longrightarrow> returns (Sub h u x) (a - b))
     \<and> (\<not> 2 ^ 128 \<le> a + b \<longrightarrow> returns (Add h u x) (a + b))
     \<and> (\<not> 2 ^ 128 \<le> a * b \<longrightarrow> returns (Mul h u x) (a * b))"
proof -
  have a: "0 \<le> a" "a < 2 ^ 128" and b: "0 \<le> b" "b < 2 ^ 128"
    using assms(3,4) by (simp_all add: in_range_def)
  have ab: "0 \<le> a * b" using a b by simp
  note S = Sub_holds [OF assms(1,2)] and A = Add_holds [OF assms(1,2)] and M = Mul_holds [OF assms(1,2)]
  have 1: "fails_with (Sub h u x) ErrUint128Underflow \<longleftrightarrow> a < b"
    by (auto simp: S validated_new_fails)
  have 2: "fails_with (Add h u x) ErrUint128Overflow \<longleftrightarrow> 2 ^ 128 \<le> a + b"
    using a b by (auto simp: A validated_new_fails)
  have 3: "fails_with (Mul h u x) ErrUint128Overflow \<longleftrightarrow> 2 ^ 128 \<le> a * b"
    using ab by (auto simp: M validated_new_fails)
  have 4: "\<not> a < b \<longrightarrow> returns (Sub h u x) (a - b)"
    using a b unfolding S by (auto intro!: validated_new_returns)
  have 5: "\<not> 2 ^ 128 \<le> a + b \<longrightarrow> returns (Add h u x) (a + b)"
    using a b unfolding A by (auto intro!: validated_new_returns)
  have 6: "\<not> 2 ^ 128 \<le> a * b \<longrightarrow> returns (Mul h u x) (a * b)"
    using ab unfolding M by (auto intro!: validated_new_returns)
  from 1 2 3 4 5 6 show ?thesis by blast
qed

text \<open>
  \<open>Add(2^128 - 1, 1)\<close> and \<open>Mul(2^64, 2^64)\<close> overflow, \<open>Sub(0, 1)\<close> underflows, and
  \<open>3 + 4\<close>, \<open>4 - 3\<close>, \<open>3 * 4\<close> are returned exactly.
\<close>

theorem Add_Sub_Mul_exact_then_checked_witness:
  "fails_with (Add [2 ^ 128 - 1, 1] \<lparr>Int' = Addr 0\<rparr> \<lparr>Int' = Addr 1\<rparr>) ErrUint128Overflow \<and>
   fails_with (Sub [0, 1] \<lparr>Int' = Addr 0\<rparr> \<lparr>Int' = Addr 1\<rparr>) ErrUint128Underflow \<and>
   fails_with (Mul [2 ^ 64] \<lparr>Int' = Addr 0\<rparr> \<lparr>Int' = Addr 0\<rparr>) ErrUint128Overflow \<and>
   returns (Add [3, 4] \<lparr>Int' = Addr 0\<rparr> \<lparr>Int' = Addr 1\<rparr>) 7 \<and>
   returns (Sub [4, 3] \<lparr>Int' = Addr 0\<rparr> \<lparr>Int' = Addr 1\<rparr>) 1 \<and>
   returns (Mul [3, 4] \<lparr>Int' = Addr 0\<rparr> \<lparr>Int' = Addr 1\<rparr>) 12"
proof -
  have r: "in_range (2 ^ 128 - 1)" "in_range 0" "in_range 1" "in_range (2 ^ 64)" "in_range 3" "in_range 4"
    by (simp_all add: in_range_def)
  have h1: "holds [2 ^ 128 - 1, 1] \<lparr>Int' = Addr 0\<rparr> (2 ^ 128 - 1)" "holds [2 ^ 128 - 1, 1] \<lparr>Int' = Addr 1\<rparr> 1"
    by (simp_all add: holds_def load_def)
  have h2: "holds [0, 1] \<lparr>Int' = Addr 0\<rparr> 0" "holds [0, 1] \<lparr>Int' = Addr 1\<rparr> 1"
    by (simp_all add: holds_def load_def)
  have h3: "holds [2 ^ 64] \<lparr>Int' = Addr 0\<rparr> (2 ^ 64)"
    by (simp_all add: holds_def load_def)
  have h4: "holds [3, 4] \<lparr>Int' = Addr 0\<rparr> 3" "holds [3, 4] \<lparr>Int' = Addr 1\<rparr> 4"
    by (simp_all add: holds_def load_def)
  have h5: "holds [4, 3] \<lparr>Int' = Addr 0\<rparr> 4" "holds [4, 3] \<lparr>Int' = Addr 1\<rparr> 3"
    by (simp_all add: holds_def load_def)
  from Add_Sub_Mul_exact_then_checked [OF h1 r(1) r(3)]
  have c1: "fails_with (Add [2 ^ 128 - 1, 1] \<lparr>Int' = Addr 0\<rparr> \<lparr>Int' = Addr 1\<rparr>) ErrUint128Overflow" by simp
  from Add_Sub_Mul_exact_then_checked [OF h2 r(2) r(3)]
  have c2: "fails_with (Sub [0, 1] \<lparr>Int' = Addr 0\<rparr> \<lparr>Int' = Addr 1\<rparr>) ErrUint128Underflow" by simp
  from Add_Sub_Mul_exact_then_checked [OF h3 h3 r(4) r(4)]
  have c3: "fails_with (Mul [2 ^ 64] \<lparr>Int' = Addr 0\<rparr> \<lparr>Int' = Addr 0\<rparr>) ErrUint128Overflow" by simp
  from Add_Sub_Mul_exact_then_checked [OF h4 r(5) r(6)]
  have c4: "returns (Add [3, 4] \<lparr>Int' = Addr 0\<rparr> \<lparr>Int' = Addr 1\<rparr>) 7"
    and c6: "returns (Mul [3, 4] \<lparr>Int' = Addr 0\<rparr> \<lparr>Int' = Addr 1\<rparr>) 12" by simp_all
  from Add_Sub_Mul_exact_then_checked [OF h5 r(6) r(5)]
  have c5: "returns (Sub [4, 3] \<lparr>Int' = Addr 0\<rparr> \<lparr>Int' = Addr 1\<rparr>) 1" by simp
  from c1 c2 c3 c4 c5 c6 show ?thesis by blast
qed

text \<open>
  C6. For valid operands holding \<open>a\<close> and \<open>b\<close> with \<open>b \<noteq> 0\<close>, \<open>Div\<close> succeeds and
  returns the quotient of \<open>a\<close> by \<open>b\<close> truncated towards zero, which leaves a remainder in
  \<open>0..b-1\<close>; the quotient is in range, and \<open>Div\<close> returns no error.
\<close>

theorem Div_truncates_in_range:
  assumes "holds h u a" and "holds h x b" and "in_range a" and "in_range b" and "b \<noteq> 0"
  shows "returns (Div h u x) (trunc_quot a b)
     \<and> in_range (trunc_quot a b)
     \<and> 0 \<le> a - b * trunc_quot a b \<and> a - b * trunc_quot a b < b
     \<and> (\<forall>e. \<not> fails_with (Div h u x) e)"
proof -
  have a: "0 \<le> a" "a < 2 ^ 128" and b: "0 < b"
    using assms(3,4,5) by (simp_all add: in_range_def)
  have q: "trunc_quot a b = a div b" using a(1) b by (rule trunc_quot_nonneg)
  have D: "Div h u x = validated (h @ [a div b]) \<lparr>Int' = Addr (length h)\<rparr>"
    using Div_holds [OF assms(1,2)] big_Div_nonneg [OF a(1) b] by simp
  have lo: "0 \<le> a div b" using a(1) b by (simp add: pos_imp_zdiv_nonneg_iff)
  have "a div b \<le> a" using a(1) by (cases "a = 0") (simp_all add: int_div_le_self)
  with a(2) have hi: "a div b < 2 ^ 128" by simp
  have rem: "a - b * (a div b) = a mod b" by (simp add: minus_mult_div_eq_mod)
  have 1: "returns (Div h u x) (trunc_quot a b)"
    unfolding D q using lo hi by (rule validated_new_returns)
  have 2: "in_range (trunc_quot a b)" using lo hi by (simp add: q in_range_def)
  have 3: "0 \<le> a - b * trunc_quot a b \<and> a - b * trunc_quot a b < b"
    using b by (simp add: q rem)
  have 4: "\<not> fails_with (Div h u x) e" for e
    using lo hi by (simp add: D validated_new_fails)
  from 1 2 3 4 show ?thesis by blast
qed

text \<open>
  \<open>Div(10, 3)\<close> is 3.
\<close>

theorem Div_truncates_in_range_witness:
  "returns (Div [10, 3] \<lparr>Int' = Addr 0\<rparr> \<lparr>Int' = Addr 1\<rparr>) 3 \<and> trunc_quot 10 3 = 3"
proof -
  have r: "in_range 10" "in_range 3" by (simp_all add: in_range_def)
  have h: "holds [10, 3] \<lparr>Int' = Addr 0\<rparr> 10" "holds [10, 3] \<lparr>Int' = Addr 1\<rparr> 3"
    by (simp_all add: holds_def load_def)
  have n: "(3::int) \<noteq> 0" by simp
  have q: "trunc_quot 10 3 = 3" by (simp add: trunc_quot_def)
  from Div_truncates_in_range [OF h r n] q show ?thesis by simp
qed

text \<open>
  C7. For valid operands holding \<open>a\<close> and \<open>b\<close>, \<open>Exp\<close> computes the exact power \<open>a^b\<close>,
  without a modulus, and checks its range: when \<open>a^b \<le> 2^128 - 1\<close> the Uint128 returned
  holds exactly \<open>a^b\<close>, and when \<open>a^b \<ge> 2^128\<close> the call fails with Overflow.
\<close>

theorem Exp_exact_then_checked:
  assumes "holds h u a" and "holds h x b" and "in_range a" and "in_range b"
  shows "(a ^ nat b \<le> 2 ^ 128 - 1 \<longrightarrow> returns (Exp h u x) (a ^ nat b))
     \<and> (2 ^ 128 \<le> a ^ nat b \<longrightarrow> fails_with (Exp h u x) ErrUint128Overflow)"
proof -
  have a: "0 \<le> a" and b: "0 \<le> b" using assms(3,4) by (simp_all add: in_range_def)
  have p: "0 \<le> a ^ nat b" using a by simp
  have E: "Exp h u x = validated (h @ [a ^ nat b]) \<lparr>Int' = Addr (length h)\<rparr>"
    using Exp_holds [OF assms(1,2)] big_Exp_nonneg [OF b] by simp
  have 1: "a ^ nat b \<le> 2 ^ 128 - 1 \<longrightarrow> returns (Exp h u x) (a ^ nat b)"
    unfolding E using p by (auto intro!: validated_new_returns)
  have 2: "2 ^ 128 \<le> a ^ nat b \<longrightarrow> fails_with (Exp h u x) ErrUint128Overflow"
    using p by (simp add: E validated_new_fails)
  from 1 2 show ?thesis by blast
qed

text \<open>
  \<open>Exp(2, 127)\<close> returns \<open>2^127\<close>, and \<open>Exp(2, 128)\<close> fails with Overflow.
\<close>

theorem Exp_exact_then_checked_witness:
  "returns (Exp [2, 127] \<lparr>Int' = Addr 0\<rparr> \<lparr>Int' = Addr 1\<rparr>) (2 ^ 127) \<and>
   fails_with (Exp [2, 128] \<lparr>Int' = Addr 0\<rparr> \<lparr>Int' = Addr 1\<rparr>) ErrUint128Overflow"
proof -
  have r: "in_range 2" "in_range 127" "in_range 128" by (simp_all add: in_range_def)
  have h1: "holds [2, 127] \<lparr>Int' = Addr 0\<rparr> 2" "holds [2, 127] \<lparr>Int' = Addr 1\<rparr> 127"
    by (simp_all add: holds_def load_def)
  have h2: "holds [2, 128] \<lparr>Int' = Addr 0\<rparr> 2" "holds [2, 128] \<lparr>Int' = Addr 1\<rparr> 128"
    by (simp_all add: holds_def load_def)
  from Exp_exact_then_checked [OF h1 r(1) r(2)]
  have c1: "returns (Exp [2, 127] \<lparr>Int' = Addr 0\<rparr> \<lparr>Int' = Addr 1\<rparr>) (2 ^ 127)" by simp
  from Exp_exact_then_checked [OF h2 r(1) r(3)]
  have c2: "fails_with (Exp [2, 128] \<lparr>Int' = Addr 0\<rparr> \<lparr>Int' = Addr 1\<rparr>) ErrUint128Overflow" by simp
  from c1 c2 show ?thesis by blast
qed

text \<open>
  C8. For a valid Uint128 holding \<open>v\<close>, \<open>String\<close> is the canonical decimal text of \<open>v\<close>: it
  is \<open>''0''\<close> for 0, it does not begin with the digit 0 for a nonzero value, it consists of
  decimal digits only (so it has no sign), and it denotes \<open>v\<close>. \<open>NewUint128FromString\<close> on
  that text succeeds, on any heap, and returns a Uint128 holding \<open>v\<close>.
\<close>

theorem String_canonical_round_trip:
  assumes "holds h u v" and "in_range v"
  shows "(v = 0 \<longrightarrow> String h u = ''0'')
     \<and> (v \<noteq> 0 \<longrightarrow> hd (String h u) \<noteq> CHR ''0'')
     \<and> String h u \<noteq> []
     \<and> set (String h u) \<subseteq> set ''0123456789''
     \<and> int (dec_value (String h u)) = v
     \<and> returns (NewUint128FromString h2 (String h u)) v"
proof -
  have v: "0 \<le> v" "v < 2 ^ 128" using assms(2) by (simp_all add: in_range_def)
  have S: "String h u = nat_itoa (nat v)"
    using assms(1) v(1) by (simp add: String_def holds_def big_Text_def)
  have 1: "v = 0 \<longrightarrow> String h u = ''0''" by (simp add: S nat_itoa_0)
  have 2: "v \<noteq> 0 \<longrightarrow> hd (String h u) \<noteq> CHR ''0''"
    using v(1) by (simp add: S hd_nat_itoa)
  have 3: "String h u \<noteq> []" by (simp add: S nat_itoa_nonempty)
  have 4: "set (String h u) \<subseteq> set ''0123456789''"
    using set_nat_itoa [of "nat v"] by (simp add: S digits_def)
  have 5: "int (dec_value (String h u)) = v"
    using v(1) by (simp add: S dec_value_nat_itoa)
  have "big_SetString (String h u) = Some v"
    using v(1) by (simp add: S big_SetString_nat_itoa)
  then have "NewUint128FromString h2 (String h u) = validated (h2 @ [v]) \<lparr>Int' = Addr (length h2)\<rparr>"
    by (rule NewUint128FromString_parsed)
  then have 6: "returns (NewUint128FromString h2 (String h u)) v"
    using v by (simp add: validated_new_returns)
  from 1 2 3 4 5 6 show ?thesis by blast
qed

text \<open>
  The text of 120 and of 0, parsed back.
\<close>

theorem String_canonical_round_trip_witness:
  "String [120] \<lparr>Int' = Addr 0\<rparr> = ''120'' \<and>
   returns (NewUint128FromString [120] ''120'') 120 \<and>
   String [0] \<lparr>Int' = Addr 0\<rparr> = ''0'' \<and>
   returns (NewUint128FromString [] ''0'') 0"
proof -
  have r: "in_range 120" "in_range 0" by (simp_all add: in_range_def)
  have h1: "holds [120] \<lparr>Int' = Addr 0\<rparr> 120" by (simp add: holds_def load_def)
  have h0: "holds [0] \<lparr>Int' = Addr 0\<rparr> 0" by (simp add: holds_def load_def)
  have s1: "String [120] \<lparr>Int' = Addr 0\<rparr> = ''120''"
    by (simp add: String_def load_def big_Text_def nat_itoa_120)
  from String_canonical_round_trip [OF h1 r(1), of "[120]"] s1
  have c1: "returns (NewUint128FromString [120] ''120'') 120" by simp
  from String_canonical_round_trip [OF h0 r(2), of "[]"]
  have c2: "String [0] \<lparr>Int' = Addr 0\<rparr> = ''0''" by simp
  from String_canonical_round_trip [OF h0 r(2), of "[]"] c2
  have c3: "returns (NewUint128FromString [] ''0'') 0" by simp
  from s1 c1 c2 c3 show ?thesis by blast
qed

text \<open>
  C9, as stated, says that for all valid operands each of the five methods returns a new
  instance. Zero is a valid operand, and \<open>Div\<close> with the operand 0 panics with a division
  by zero: it returns neither an instance nor an error.
\<close>

theorem Div_by_zero_counterexample:
  "holds [10, 0] \<lparr>Int' = Addr 0\<rparr> 10 \<and> in_range 10 \<and>
   holds [10, 0] \<lparr>Int' = Addr 1\<rparr> 0 \<and> in_range 0 \<and>
   Div [10, 0] \<lparr>Int' = Addr 0\<rparr> \<lparr>Int' = Addr 1\<rparr> = Inl DivisionByZero \<and>
   \<not> operands_kept [10, 0] \<lparr>Int' = Addr 0\<rparr> \<lparr>Int' = Addr 1\<rparr>
         (Div [10, 0] \<lparr>Int' = Addr 0\<rparr> \<lparr>Int' = Addr 1\<rparr>)"
proof -
  have a: "holds [10, 0] \<lparr>Int' = Addr 0\<rparr> 10" "holds [10, 0] \<lparr>Int' = Addr 1\<rparr> 0"
    by (simp_all add: holds_def load_def)
  have r: "in_range 10" "in_range 0" by (simp_all add: in_range_def)
  have d: "Div [10, 0] \<lparr>Int' = Addr 0\<rparr> \<lparr>Int' = Addr 1\<rparr> = Inl DivisionByZero"
    using Div_holds [OF a] by (simp add: big_Div_zero)
  from a r d show ?thesis by (simp add: operands_kept_def)
qed

text \<open>
  C9, amended. For operands holding \<open>a\<close> and \<open>b\<close>, \<open>Add\<close>, \<open>Sub\<close>, \<open>Mul\<close>, \<open>Exp\<close>, and \<open>Div\<close>
  when \<open>b \<noteq> 0\<close>, put their result into a big integer made for the call and never write
  to a cell that existed before: after the call the receiver and the operand hold the
  values they held, whether the call returned a Uint128 or an error, and a Uint128
  returned points to the new cell, which is neither the receiver's nor the operand's.
  \<open>Div\<close> with \<open>b = 0\<close> panics with a division by zero.
\<close>

theorem arithmetic_keeps_operands:
  assumes "holds h u a" and "holds h x b"
  shows "operands_kept h u x (Add h u x)
     \<and> operands_kept h u x (Sub h u x)
     \<and> operands_kept h u x (Mul h u x)
     \<and> (b \<noteq> 0 \<longrightarrow> operands_kept h u x (Div h u x))
     \<and> (b = 0 \<longrightarrow> Div h u x = Inl DivisionByZero)
     \<and> operands_kept h u x (Exp h u x)"
proof -
  note K = operands_kept_validated_new [OF assms]
  have 1: "operands_kept h u x (Add h u x)" by (simp add: Add_holds [OF assms] K)
  have 2: "operands_kept h u x (Sub h u x)" by (simp add: Sub_holds [OF assms] K)
  have 3: "operands_kept h u x (Mul h u x)" by (simp add: Mul_holds [OF assms] K)
  have 4: "operands_kept h u x (Div h u x)" if "b \<noteq> 0"
  proof -
    from that obtain c where "big_Div a b = Inr c" using big_Div_total by blast
    then show ?thesis by (simp add: Div_holds [OF assms] K)
  qed
  have 5: "operands_kept h u x (Exp h u x)" by (simp add: Exp_holds [OF assms] K)
  have 6: "Div h u x = Inl DivisionByZero" if "b = 0"
    using that by (simp add: Div_holds [OF assms] big_Div_zero)
  from 1 2 3 4 5 6 show ?thesis by blast
qed

text \<open>
  \<open>Add(10, 3)\<close> returns a third cell holding 13 beside the cells 10 and 3; \<open>Sub(3, 10)\<close>
  returns Underflow and leaves 3 and 10 in place.
\<close>

theorem arithmetic_keeps_operands_witness:
  "operands_kept [10, 3] \<lparr>Int' = Addr 0\<rparr> \<lparr>Int' = Addr 1\<rparr> (Add [10, 3] \<lparr>Int' = Addr 0\<rparr> \<lparr>Int' = Addr 1\<rparr>) \<and>
   operands_kept [10, 3] \<lparr>Int' = Addr 0\<rparr> \<lparr>Int' = Addr 1\<rparr> (Div [10, 3] \<lparr>Int' = Addr 0\<rparr> \<lparr>Int' = Addr 1\<rparr>) \<and>
   operands_kept [3, 10] \<lparr>Int' = Addr 0\<rparr> \<lparr>Int' = Addr 1\<rparr> (Sub [3, 10] \<lparr>Int' = Addr 0\<rparr> \<lparr>Int' = Addr 1\<rparr>) \<and>
   Add [10, 3] \<lparr>Int' = Addr 0\<rparr> \<lparr>Int' = Addr 1\<rparr> = Inr (Inr \<lparr>Int' = Addr 2\<rparr>, [10, 3, 13]) \<and>
   Sub [3, 10] \<lparr>Int' = Addr 0\<rparr> \<lparr>Int' = Addr 1\<rparr> = Inr (Inl ErrUint128Underflow, [3, 10, - 7])"
proof -
  have h1: "holds [10, 3] \<lparr>Int' = Addr 0\<rparr> 10" "holds [10, 3] \<lparr>Int' = Addr 1\<rparr> 3"
    by (simp_all add: holds_def load_def)
  have h2: "holds [3, 10] \<lparr>Int' = Addr 0\<rparr> 3" "holds [3, 10] \<lparr>Int' = Addr 1\<rparr> 10"
    by (simp_all add: holds_def load_def)
  from arithmetic_keeps_operands [OF h1]
  have c1: "operands_kept [10, 3] \<lparr>Int' = Addr 0\<rparr> \<lparr>Int' = Addr 1\<rparr> (Add [10, 3] \<lparr>Int' = Addr 0\<rparr> \<lparr>Int' = Addr 1\<rparr>)"
    and c2: "operands_kept [10, 3] \<lparr>Int' = Addr 0\<rparr> \<lparr>Int' = Addr 1\<rparr> (Div [10, 3] \<lparr>Int' = Addr 0\<rparr> \<lparr>Int' = Addr 1\<rparr>)"
    by simp_all
  from arithmetic_keeps_operands [OF h2]
  have c3: "operands_kept [3, 10] \<lparr>Int' = Addr 0\<rparr> \<lparr>Int' = Addr 1\<rparr> (Sub [3, 10] \<lparr>Int' = Addr 0\<rparr> \<lparr>Int' = Addr 1\<rparr>)"
    by simp
  have c4: "Add [10, 3] \<lparr>Int' = Addr 0\<rparr> \<lparr>Int' = Addr 1\<rparr> = Inr (Inr \<lparr>Int' = Addr 2\<rparr>, [10, 3, 13])"
    using Add_holds [OF h1] validated_new [of "[10, 3]" 13] by simp
  have c5: "Sub [3, 10] \<lparr>Int' = Addr 0\<rparr> \<lparr>Int' = Addr 1\<rparr> = Inr (Inl ErrUint128Underflow, [3, 10, - 7])"
    using Sub_holds [OF h2] validated_new [of "[3, 10]" "- 7"] by simp
  from c1 c2 c3 c4 c5 show ?thesis by blast
qed

text \<open>
  C10. When the slice is not 16 bytes long, \<open>FromFixedSizeByteSlice\<close> returns
  InvalidBytesSize and the heap it was given, unchanged: no cell is written, so the
  receiver keeps the value it had.
\<close>

theorem FromFixedSizeByteSlice_wrong_length_keeps_heap:
  "length bytes \<noteq> 16 \<Longrightarrow>
   FromFixedSizeByteSlice h u bytes = Inr (Inl ErrUint128InvalidBytesSize, h)"
  by (rule FromFixedSizeByteSlice_bad_length)

text \<open>
  A receiver holding 42 still holds 42 after a failed decode of 3 bytes.
\<close>

theorem FromFixedSizeByteSlice_wrong_length_keeps_heap_witness:
  "length [1, 2, 3 :: byte] \<noteq> 16 \<and>
   FromFixedSizeByteSlice [42, 7] \<lparr>Int' = Addr 0\<rparr> [1, 2, 3] = Inr (Inl ErrUint128InvalidBytesSize, [42, 7])"
proof -
  have a: "length [1, 2, 3 :: byte] \<noteq> 16" by simp
  from FromFixedSizeByteSlice_wrong_length_keeps_heap [OF a] a show ?thesis by blast
qed

end
